theory Spec2Isabelle
  imports Main "HOL-Library.Word"
begin

section \<open>The element type and the environment\<close>

text \<open>
  The vector of \<^verbatim>\<open>vector.h\<close> is generic in its element type \<open>T\<close> and lives on raw
  memory. The model keeps the three things the code distinguishes:
  \<^item> a slot of a buffer is either raw memory (\<open>None\<close>) or a live object with a value
    (\<open>Some x\<close>);
  \<^item> \<open>size_t\<close> is a 64-bit word, so \<open>--size_\<close>, \<open>size_ * 2\<close> and \<open>size_ - index\<close>
    wrap as they do in the program;
  \<^item> every special member function of \<open>T\<close> and every allocation may throw. What throws
    is fixed by the element type: \<open>throws k t x\<close> says whether the operation of kind
    \<open>k\<close> applied to the value \<open>x\<close> throws when it is the \<open>t\<close>-th fallible event of
    the run, and \<open>alloc_fails t n\<close> whether \<open>operator new\<close> for \<open>n\<close> slots throws
    \<open>std::bad_alloc\<close> there.

  A buffer is owned by exactly one \<open>RawMemory\<close> (the class is never copied by the
  vector), so a buffer is held by value: the list of its slots. The empty list stands
  for the null pointer of a block of capacity 0. Byte sizes (\<open>n * sizeof(T)\<close>) are not
  modelled: an allocation of \<open>n\<close> slots yields \<open>n\<close> raw slots or throws.

  A copy produces an equal value and leaves its source alone; a move produces the
  source's value and leaves \<open>moved_from x\<close> behind; an operation that throws leaves its
  operands unchanged. Reading or destroying a raw slot, or touching a slot outside the
  block, is undefined behaviour, and so is a failing \<open>assert\<close>.
\<close>

type_synonym size_t = "64 word"

type_synonym 'a slot = "'a option"

datatype op_kind = CopyCtor | MoveCtor | ValueCtor | ArgsCtor | CopyAssign | MoveAssign

record 'a traits =
  nothrow_move_constructible :: bool
  copy_constructible :: bool
  throws :: "op_kind \<Rightarrow> nat \<Rightarrow> 'a \<Rightarrow> bool"
  alloc_fails :: "nat \<Rightarrow> nat \<Rightarrow> bool"
  moved_from :: "'a \<Rightarrow> 'a"
  value_init :: 'a

text \<open>
  The bookkeeping of a run: how many fallible events happened (the index into the
  oracles), how many objects of type \<open>T\<close> were constructed and destroyed, how many
  blocks were allocated and released.
\<close>

record world =
  tick :: nat
  constructed :: nat
  destroyed :: nat
  allocated :: nat
  released :: nat

datatype exn = bad_alloc | elem_exn

text \<open>
  A call returns a value and a state, leaves by an exception with the state the caller
  then sees, or has undefined behaviour.
\<close>

datatype ('r, 's) outcome = Returns 'r 's | Throws exn 's | Undefined

text \<open>What a member function hands back: nothing, a reference to the element at an
  index of the vector, an iterator at an index, or a reference to the vector at an
  address.\<close>

datatype ret = Void | ElemRef nat | Iter nat | VecRef nat


text \<open>A move constructor that is \<open>noexcept\<close> does not throw.\<close>

definition op_throws :: "'a traits \<Rightarrow> op_kind \<Rightarrow> nat \<Rightarrow> 'a \<Rightarrow> bool" where
  "op_throws tr k t x =
     (throws tr k t x \<and> \<not> (k = MoveCtor \<and> nothrow_move_constructible tr))"

fun src_after :: "'a traits \<Rightarrow> op_kind \<Rightarrow> 'a \<Rightarrow> 'a" where
  "src_after tr MoveCtor x = moved_from tr x"
| "src_after tr MoveAssign x = moved_from tr x"
| "src_after tr k x = x"

section \<open>Objects in raw memory\<close>

text \<open>Placement new of a \<open>T\<close> with value \<open>x\<close> at slot \<open>i\<close>.\<close>

definition construct_at ::
  "'a traits \<Rightarrow> op_kind \<Rightarrow> nat \<Rightarrow> 'a \<Rightarrow> 'a slot list \<Rightarrow> world
     \<Rightarrow> (unit, 'a slot list \<times> world) outcome" where
  "construct_at tr k i x buf w =
     (if length buf \<le> i then Undefined
      else if op_throws tr k (tick w) x then Throws elem_exn (buf, w\<lparr>tick := tick w + 1\<rparr>)
      else Returns () (buf[i := Some x],
                       w\<lparr>tick := tick w + 1, constructed := constructed w + 1\<rparr>))"

text \<open>Assignment of the value \<open>x\<close> to the live object at slot \<open>i\<close>.\<close>

definition assign_at ::
  "'a traits \<Rightarrow> op_kind \<Rightarrow> nat \<Rightarrow> 'a \<Rightarrow> 'a slot list \<Rightarrow> world
     \<Rightarrow> (unit, 'a slot list \<times> world) outcome" where
  "assign_at tr k i x buf w =
     (if length buf \<le> i then Undefined
      else if buf ! i = None then Undefined
      else if op_throws tr k (tick w) x then Throws elem_exn (buf, w\<lparr>tick := tick w + 1\<rparr>)
      else Returns () (buf[i := Some x], w\<lparr>tick := tick w + 1\<rparr>))"

text \<open>The destructor of the object at slot \<open>i\<close>; destructors do not throw.\<close>

definition destroy_at :: "nat \<Rightarrow> 'a slot list \<Rightarrow> world \<Rightarrow> ('a slot list \<times> world) option" where
  "destroy_at i buf w =
     (if length buf \<le> i then None
      else if buf ! i = None then None
      else Some (buf[i := None], w\<lparr>destroyed := destroyed w + 1\<rparr>))"

text \<open>The value of the live object at slot \<open>i\<close>.\<close>

definition object_at :: "'a slot list \<Rightarrow> nat \<Rightarrow> 'a option" where
  "object_at buf i = (if length buf \<le> i then None else buf ! i)"

fun destroy_n :: "nat \<Rightarrow> nat \<Rightarrow> 'a slot list \<Rightarrow> world \<Rightarrow> ('a slot list \<times> world) option" where
  "destroy_n first 0 buf w = Some (buf, w)"
| "destroy_n first (Suc n) buf w =
     (case destroy_at first buf w of
        None \<Rightarrow> None
      | Some (buf', w') \<Rightarrow> destroy_n (Suc first) n buf' w')"

text \<open>
  \<open>std::uninitialized_copy_n\<close> and \<open>std::uninitialized_move_n\<close>: construct \<open>n\<close> objects
  at \<open>dst + d\<close> from the objects at \<open>src + s\<close>. When a constructor throws, the objects
  the call has constructed are destroyed before the exception leaves.
\<close>

fun uninitialized_n ::
  "'a traits \<Rightarrow> op_kind \<Rightarrow> nat \<Rightarrow> nat \<Rightarrow> nat \<Rightarrow> 'a slot list \<Rightarrow> 'a slot list \<Rightarrow> world
     \<Rightarrow> (unit, 'a slot list \<times> 'a slot list \<times> world) outcome" where
  "uninitialized_n tr k s d 0 src dst w = Returns () (src, dst, w)"
| "uninitialized_n tr k s d (Suc n) src dst w =
     (case object_at src s of
        None \<Rightarrow> Undefined
      | Some x \<Rightarrow>
         (case construct_at tr k d x dst w of
            Undefined \<Rightarrow> Undefined
          | Throws e (dst', w') \<Rightarrow> Throws e (src, dst', w')
          | Returns u (dst', w') \<Rightarrow>
             (case uninitialized_n tr k (Suc s) (Suc d) n
                     (src[s := Some (src_after tr k x)]) dst' w' of
                Undefined \<Rightarrow> Undefined
              | Returns u' st \<Rightarrow> Returns () st
              | Throws e (src'', dst'', w'') \<Rightarrow>
                 (case destroy_at d dst'' w'' of
                    None \<Rightarrow> Undefined
                  | Some (dst3, w3) \<Rightarrow> Throws e (src'', dst3, w3)))))"

definition uninitialized_copy_n ::
  "'a traits \<Rightarrow> 'a slot list \<Rightarrow> nat \<Rightarrow> nat \<Rightarrow> 'a slot list \<Rightarrow> nat \<Rightarrow> world
     \<Rightarrow> (unit, 'a slot list \<times> 'a slot list \<times> world) outcome" where
  "uninitialized_copy_n tr src s n dst d w = uninitialized_n tr CopyCtor s d n src dst w"

definition uninitialized_move_n ::
  "'a traits \<Rightarrow> 'a slot list \<Rightarrow> nat \<Rightarrow> nat \<Rightarrow> 'a slot list \<Rightarrow> nat \<Rightarrow> world
     \<Rightarrow> (unit, 'a slot list \<times> 'a slot list \<times> world) outcome" where
  "uninitialized_move_n tr src s n dst d w = uninitialized_n tr MoveCtor s d n src dst w"

text \<open>\<open>std::uninitialized_value_construct_n\<close>, with the same clean-up.\<close>

fun uninitialized_value_construct_n ::
  "'a traits \<Rightarrow> nat \<Rightarrow> nat \<Rightarrow> 'a slot list \<Rightarrow> world \<Rightarrow> (unit, 'a slot list \<times> world) outcome" where
  "uninitialized_value_construct_n tr d 0 buf w = Returns () (buf, w)"
| "uninitialized_value_construct_n tr d (Suc n) buf w =
     (case construct_at tr ValueCtor d (value_init tr) buf w of
        Undefined \<Rightarrow> Undefined
      | Throws e st \<Rightarrow> Throws e st
      | Returns u (buf', w') \<Rightarrow>
         (case uninitialized_value_construct_n tr (Suc d) n buf' w' of
            Undefined \<Rightarrow> Undefined
          | Returns u' st \<Rightarrow> Returns () st
          | Throws e (buf'', w'') \<Rightarrow>
             (case destroy_at d buf'' w'' of
                None \<Rightarrow> Undefined
              | Some st \<Rightarrow> Throws e st)))"

text \<open>
  \<open>std::copy_n\<close> between two buffers: element-wise copy assignment onto live objects.
  Nothing is rolled back when an assignment throws.
\<close>

fun copy_n ::
  "'a traits \<Rightarrow> 'a slot list \<Rightarrow> nat \<Rightarrow> nat \<Rightarrow> nat \<Rightarrow> 'a slot list \<Rightarrow> world
     \<Rightarrow> (unit, 'a slot list \<times> world) outcome" where
  "copy_n tr src s 0 d dst w = Returns () (dst, w)"
| "copy_n tr src s (Suc n) d dst w =
     (case object_at src s of
        None \<Rightarrow> Undefined
      | Some x \<Rightarrow>
         (case assign_at tr CopyAssign d x dst w of
            Undefined \<Rightarrow> Undefined
          | Throws e st \<Rightarrow> Throws e st
          | Returns u (dst', w') \<Rightarrow> copy_n tr src (Suc s) n (Suc d) dst' w'))"

text \<open>
  \<open>std::move(first, last, d_first)\<close> inside one buffer, \<open>n = last - first\<close>:
  \<open>*d_first++ = std::move(*first++)\<close>.
\<close>

fun move_n ::
  "'a traits \<Rightarrow> nat \<Rightarrow> nat \<Rightarrow> nat \<Rightarrow> 'a slot list \<Rightarrow> world
     \<Rightarrow> (unit, 'a slot list \<times> world) outcome" where
  "move_n tr first 0 d buf w = Returns () (buf, w)"
| "move_n tr first (Suc n) d buf w =
     (case object_at buf first of
        None \<Rightarrow> Undefined
      | Some x \<Rightarrow>
         (case assign_at tr MoveAssign d x buf w of
            Undefined \<Rightarrow> Undefined
          | Throws e st \<Rightarrow> Throws e st
          | Returns u (buf', w') \<Rightarrow>
              move_n tr (Suc first) n (Suc d) (buf'[first := Some (moved_from tr x)]) w'))"

text \<open>
  \<open>std::move_backward(first, last, d_last)\<close> inside one buffer, \<open>n = last - first\<close>:
  \<open>*--d_last = std::move(*--last)\<close>.
\<close>

fun move_backward_n ::
  "'a traits \<Rightarrow> nat \<Rightarrow> nat \<Rightarrow> nat \<Rightarrow> 'a slot list \<Rightarrow> world
     \<Rightarrow> (unit, 'a slot list \<times> world) outcome" where
  "move_backward_n tr 0 lst d_last buf w = Returns () (buf, w)"
| "move_backward_n tr (Suc n) lst d_last buf w =
     (if lst = 0 \<or> d_last = 0 then Undefined
      else case object_at buf (lst - 1) of
        None \<Rightarrow> Undefined
      | Some x \<Rightarrow>
         (case assign_at tr MoveAssign (d_last - 1) x buf w of
            Undefined \<Rightarrow> Undefined
          | Throws e st \<Rightarrow> Throws e st
          | Returns u (buf', w') \<Rightarrow>
              move_backward_n tr n (lst - 1) (d_last - 1)
                (buf'[lst - 1 := Some (moved_from tr x)]) w'))"

section \<open>RawMemory\<close>

text \<open>The members \<open>buffer_\<close>, \<open>capacity_\<close>, \<open>data_\<close> and \<open>size_\<close> of the source are
  \<open>buffer_m\<close>, \<open>capacity_m\<close>, \<open>data_m\<close> and \<open>size_m\<close> here.\<close>

record 'a RawMemory =
  buffer_m :: "'a slot list"
  capacity_m :: size_t

definition RawMemory_default :: "'a RawMemory" where
  "RawMemory_default = \<lparr>buffer_m = [], capacity_m = 0\<rparr>"

definition Allocate :: "'a traits \<Rightarrow> size_t \<Rightarrow> world \<Rightarrow> ('a slot list, world) outcome" where
  "Allocate tr n w =
     (if n \<noteq> 0 then
        (if alloc_fails tr (tick w) (unat n) then Throws bad_alloc (w\<lparr>tick := tick w + 1\<rparr>)
         else Returns (replicate (unat n) None)
                (w\<lparr>tick := tick w + 1, allocated := allocated w + 1\<rparr>))
      else Returns [] w)"

definition Deallocate :: "'a slot list \<Rightarrow> world \<Rightarrow> world" where
  "Deallocate buf w = (if buf = [] then w else w\<lparr>released := released w + 1\<rparr>)"

definition RawMemory_new :: "'a traits \<Rightarrow> size_t \<Rightarrow> world \<Rightarrow> ('a RawMemory, world) outcome" where
  "RawMemory_new tr capacity w =
     (case Allocate tr capacity w of
        Undefined \<Rightarrow> Undefined
      | Throws e w' \<Rightarrow> Throws e w'
      | Returns buf w' \<Rightarrow> Returns \<lparr>buffer_m = buf, capacity_m = capacity\<rparr> w')"

definition RawMemory_dtor :: "'a RawMemory \<Rightarrow> world \<Rightarrow> world" where
  "RawMemory_dtor m w = Deallocate (buffer_m m) w"

text \<open>\<open>operator+\<close> and \<open>operator[]\<close> with their assertions: the offset of the slot, or
  nothing when the assertion fails.\<close>

definition RawMemory_plus :: "'a RawMemory \<Rightarrow> size_t \<Rightarrow> nat option" where
  "RawMemory_plus m offset = (if offset \<le> capacity_m m then Some (unat offset) else None)"

definition RawMemory_index :: "'a RawMemory \<Rightarrow> size_t \<Rightarrow> nat option" where
  "RawMemory_index m index = (if index < capacity_m m then Some (unat index) else None)"

definition RawMemory_Swap :: "'a RawMemory \<Rightarrow> 'a RawMemory \<Rightarrow> 'a RawMemory \<times> 'a RawMemory" where
  "RawMemory_Swap a b =
     (\<lparr>buffer_m = buffer_m b, capacity_m = capacity_m b\<rparr>,
      \<lparr>buffer_m = buffer_m a, capacity_m = capacity_m a\<rparr>)"

section \<open>Vector\<close>

record 'a Vector =
  data_m :: "'a RawMemory"
  size_m :: size_t

definition set_buffer :: "'a Vector \<Rightarrow> 'a slot list \<Rightarrow> 'a Vector" where
  "set_buffer v buf = v\<lparr>data_m := (data_m v)\<lparr>buffer_m := buf\<rparr>\<rparr>"


definition Capacity :: "'a Vector \<Rightarrow> size_t" where
  "Capacity v = capacity_m (data_m v)"

definition Vector_default :: "'a Vector" where
  "Vector_default = \<lparr>data_m = RawMemory_default, size_m = 0\<rparr>"

text \<open>\<open>explicit Vector(size_t size)\<close>. When a constructor throws, the member \<open>data_m\<close> is
  destroyed and no vector exists.\<close>

definition Vector_sized :: "'a traits \<Rightarrow> size_t \<Rightarrow> world \<Rightarrow> ('a Vector, world) outcome" where
  "Vector_sized tr n w =
     (case RawMemory_new tr n w of
        Undefined \<Rightarrow> Undefined
      | Throws e w1 \<Rightarrow> Throws e w1
      | Returns m w1 \<Rightarrow>
         (case uninitialized_value_construct_n tr 0 (unat n) (buffer_m m) w1 of
            Undefined \<Rightarrow> Undefined
          | Throws e (b, w2) \<Rightarrow> Throws e (RawMemory_dtor (m\<lparr>buffer_m := b\<rparr>) w2)
          | Returns u (b, w2) \<Rightarrow> Returns \<lparr>data_m = m\<lparr>buffer_m := b\<rparr>, size_m = n\<rparr> w2))"

text \<open>\<open>Vector(const Vector &other)\<close>.\<close>

definition Vector_copy :: "'a traits \<Rightarrow> 'a Vector \<Rightarrow> world \<Rightarrow> ('a Vector, world) outcome" where
  "Vector_copy tr other w =
     (case RawMemory_new tr (size_m other) w of
        Undefined \<Rightarrow> Undefined
      | Throws e w1 \<Rightarrow> Throws e w1
      | Returns m w1 \<Rightarrow>
         (case uninitialized_copy_n tr (buffer_m (data_m other)) 0 (unat (size_m other))
                 (buffer_m m) 0 w1 of
            Undefined \<Rightarrow> Undefined
          | Throws e (src, b, w2) \<Rightarrow> Throws e (RawMemory_dtor (m\<lparr>buffer_m := b\<rparr>) w2)
          | Returns u (src, b, w2) \<Rightarrow>
              Returns \<lparr>data_m = m\<lparr>buffer_m := b\<rparr>, size_m = size_m other\<rparr> w2))"

definition Swap :: "'a Vector \<Rightarrow> 'a Vector \<Rightarrow> 'a Vector \<times> 'a Vector" where
  "Swap this other =
     (case RawMemory_Swap (data_m this) (data_m other) of
        (d, od) \<Rightarrow> (\<lparr>data_m = d, size_m = size_m other\<rparr>, \<lparr>data_m = od, size_m = size_m this\<rparr>))"

text \<open>\<open>Vector(Vector &&other)\<close>: the new vector and what is left of \<open>other\<close>.\<close>

definition Vector_move :: "'a Vector \<Rightarrow> 'a Vector \<times> 'a Vector" where
  "Vector_move other = Swap Vector_default other"

text \<open>\<open>~Vector()\<close>, followed by the destructor of \<open>data_m\<close>.\<close>

definition Vector_dtor :: "'a Vector \<Rightarrow> world \<Rightarrow> world option" where
  "Vector_dtor v w =
     (case destroy_n 0 (unat (size_m v)) (buffer_m (data_m v)) w of
        None \<Rightarrow> None
      | Some (b, w1) \<Rightarrow> Some (RawMemory_dtor ((data_m v)\<lparr>buffer_m := b\<rparr>) w1))"

definition MoveIfItsPossible ::
  "'a traits \<Rightarrow> 'a slot list \<Rightarrow> nat \<Rightarrow> nat \<Rightarrow> 'a slot list \<Rightarrow> nat \<Rightarrow> world
     \<Rightarrow> (unit, 'a slot list \<times> 'a slot list \<times> world) outcome" where
  "MoveIfItsPossible tr src s n dst d w =
     (if nothrow_move_constructible tr \<or> \<not> copy_constructible tr
      then uninitialized_move_n tr src s n dst d w
      else uninitialized_copy_n tr src s n dst d w)"

definition Reserve ::
  "'a traits \<Rightarrow> size_t \<Rightarrow> 'a Vector \<Rightarrow> world \<Rightarrow> (ret, 'a Vector \<times> world) outcome" where
  "Reserve tr new_capacity v w =
     (if new_capacity \<le> capacity_m (data_m v) then Returns Void (v, w)
      else
        case RawMemory_new tr new_capacity w of
          Undefined \<Rightarrow> Undefined
        | Throws e w1 \<Rightarrow> Throws e (v, w1)
        | Returns new_data w1 \<Rightarrow>
           (case MoveIfItsPossible tr (buffer_m (data_m v)) 0 (unat (size_m v))
                   (buffer_m new_data) 0 w1 of
              Undefined \<Rightarrow> Undefined
            | Throws e (old, nb, w2) \<Rightarrow>
                Throws e (set_buffer v old, RawMemory_dtor (new_data\<lparr>buffer_m := nb\<rparr>) w2)
            | Returns u (old, nb, w2) \<Rightarrow>
               (case destroy_n 0 (unat (size_m v)) old w2 of
                  None \<Rightarrow> Undefined
                | Some (old', w3) \<Rightarrow>
                   (case RawMemory_Swap ((data_m v)\<lparr>buffer_m := old'\<rparr>)
                           (new_data\<lparr>buffer_m := nb\<rparr>) of
                      (d, nd) \<Rightarrow> Returns Void (v\<lparr>data_m := d\<rparr>, RawMemory_dtor nd w3)))))"

definition Resize ::
  "'a traits \<Rightarrow> size_t \<Rightarrow> 'a Vector \<Rightarrow> world \<Rightarrow> (ret, 'a Vector \<times> world) outcome" where
  "Resize tr new_size v w =
     (if size_m v > new_size then
        (case destroy_n (unat new_size) (unat (size_m v - new_size)) (buffer_m (data_m v)) w of
           None \<Rightarrow> Undefined
         | Some (b, w1) \<Rightarrow> Returns Void ((set_buffer v b)\<lparr>size_m := new_size\<rparr>, w1))
      else
        (case Reserve tr new_size v w of
           Undefined \<Rightarrow> Undefined
         | Throws e st \<Rightarrow> Throws e st
         | Returns u (v1, w1) \<Rightarrow>
            (case uninitialized_value_construct_n tr (unat (size_m v1))
                    (unat (new_size - size_m v1)) (buffer_m (data_m v1)) w1 of
               Undefined \<Rightarrow> Undefined
             | Throws e (b, w2) \<Rightarrow> Throws e (set_buffer v1 b, w2)
             | Returns u' (b, w2) \<Rightarrow>
                 Returns Void ((set_buffer v1 b)\<lparr>size_m := new_size\<rparr>, w2))))"

definition PopBack :: "'a Vector \<Rightarrow> world \<Rightarrow> (ret, 'a Vector \<times> world) outcome" where
  "PopBack v w =
     (let v1 = v\<lparr>size_m := size_m v - 1\<rparr> in
      case RawMemory_plus (data_m v1) (size_m v1) of
        None \<Rightarrow> Undefined
      | Some p \<Rightarrow>
         (case destroy_at p (buffer_m (data_m v1)) w of
            None \<Rightarrow> Undefined
          | Some (b, w1) \<Rightarrow> Returns Void (set_buffer v1 b, w1)))"

text \<open>
  The insertions take the kind of constructor that builds the new element from the
  arguments (\<open>CopyCtor\<close> for \<open>const T &\<close>, \<open>MoveCtor\<close> for \<open>T &&\<close>, \<open>ArgsCtor\<close>
  otherwise) and the value \<open>x\<close> it builds. An iterator is its offset from \<open>begin()\<close>.
\<close>

definition EmplaceWithRelocation ::
  "'a traits \<Rightarrow> op_kind \<Rightarrow> size_t \<Rightarrow> 'a \<Rightarrow> 'a Vector \<Rightarrow> world
     \<Rightarrow> (ret, 'a Vector \<times> world) outcome" where
  "EmplaceWithRelocation tr k pos x v w =
     (let index = pos in
      case RawMemory_new tr (if size_m v = 0 then 1 else size_m v * 2) w of
        Undefined \<Rightarrow> Undefined
      | Throws e w1 \<Rightarrow> Throws e (v, w1)
      | Returns new_data w1 \<Rightarrow>
         (case RawMemory_plus new_data index of
            None \<Rightarrow> Undefined
          | Some p \<Rightarrow>
             (case construct_at tr k p x (buffer_m new_data) w1 of
                Undefined \<Rightarrow> Undefined
              | Throws e (nb, w2) \<Rightarrow>
                  Throws e (v, RawMemory_dtor (new_data\<lparr>buffer_m := nb\<rparr>) w2)
              | Returns u (nb, w2) \<Rightarrow>
                 (case MoveIfItsPossible tr (buffer_m (data_m v)) 0 (unat index) nb 0 w2 of
                    Undefined \<Rightarrow> Undefined
                  | Throws e (old, nb1, w3) \<Rightarrow>
                     (case RawMemory_index new_data index of
                        None \<Rightarrow> Undefined
                      | Some q \<Rightarrow>
                         (case destroy_at q nb1 w3 of
                            None \<Rightarrow> Undefined
                          | Some (nb2, w4) \<Rightarrow>
                              Throws e (set_buffer v old,
                                        RawMemory_dtor (new_data\<lparr>buffer_m := nb2\<rparr>) w4)))
                  | Returns u1 (old, nb1, w3) \<Rightarrow>
                     (case RawMemory_plus new_data (index + 1) of
                        None \<Rightarrow> Undefined
                      | Some p1 \<Rightarrow>
                         (case MoveIfItsPossible tr old (unat index) (unat (size_m v - index))
                                 nb1 p1 w3 of
                            Undefined \<Rightarrow> Undefined
                          | Throws e (old1, nb2, w4) \<Rightarrow>
                             (case destroy_n 0 (unat (index + 1)) nb2 w4 of
                                None \<Rightarrow> Undefined
                              | Some (nb3, w5) \<Rightarrow>
                                  Throws e (set_buffer v old1,
                                            RawMemory_dtor (new_data\<lparr>buffer_m := nb3\<rparr>) w5))
                          | Returns u2 (old1, nb2, w4) \<Rightarrow>
                             (case destroy_n 0 (unat (size_m v)) old1 w4 of
                                None \<Rightarrow> Undefined
                              | Some (old2, w5) \<Rightarrow>
                                 (case RawMemory_Swap ((data_m v)\<lparr>buffer_m := old2\<rparr>)
                                         (new_data\<lparr>buffer_m := nb2\<rparr>) of
                                    (d, nd) \<Rightarrow>
                                      Returns (Iter (unat index))
                                        (v\<lparr>data_m := d, size_m := size_m v + 1\<rparr>,
                                         RawMemory_dtor nd w5)))))))))"

text \<open>
  In the branch that shifts, the local \<open>copy\<close> is a \<open>T\<close> of its own: it is constructed
  first and destroyed when the function is left, by return or by exception.
\<close>

definition EmplaceWithoutRelocation ::
  "'a traits \<Rightarrow> op_kind \<Rightarrow> size_t \<Rightarrow> 'a \<Rightarrow> 'a Vector \<Rightarrow> world
     \<Rightarrow> (ret, 'a Vector \<times> world) outcome" where
  "EmplaceWithoutRelocation tr k pos x v w =
     (let index = pos in
      if pos = size_m v then
        (case RawMemory_plus (data_m v) (size_m v) of
           None \<Rightarrow> Undefined
         | Some p \<Rightarrow>
            (case construct_at tr k p x (buffer_m (data_m v)) w of
               Undefined \<Rightarrow> Undefined
             | Throws e (b, w1) \<Rightarrow> Throws e (set_buffer v b, w1)
             | Returns u (b, w1) \<Rightarrow>
                 Returns (Iter (unat index)) ((set_buffer v b)\<lparr>size_m := size_m v + 1\<rparr>, w1)))
      else if op_throws tr k (tick w) x then Throws elem_exn (v, w\<lparr>tick := tick w + 1\<rparr>)
      else
        (let w1 = w\<lparr>tick := tick w + 1, constructed := constructed w + 1\<rparr> in
         case RawMemory_plus (data_m v) (size_m v) of
           None \<Rightarrow> Undefined
         | Some p \<Rightarrow>
            (case RawMemory_index (data_m v) (size_m v - 1) of
               None \<Rightarrow> Undefined
             | Some q \<Rightarrow>
                (case object_at (buffer_m (data_m v)) q of
                   None \<Rightarrow> Undefined
                 | Some y \<Rightarrow>
                    (case construct_at tr MoveCtor p y (buffer_m (data_m v)) w1 of
                       Undefined \<Rightarrow> Undefined
                     | Throws e (b, w2) \<Rightarrow>
                         Throws e (set_buffer v b, w2\<lparr>destroyed := destroyed w2 + 1\<rparr>)
                     | Returns u (b, w2) \<Rightarrow>
                        (if size_m v - 1 < index then Undefined
                         else
                           case move_backward_n tr (unat (size_m v - 1) - unat index)
                                  (unat (size_m v - 1)) (unat (size_m v))
                                  (b[q := Some (moved_from tr y)]) w2 of
                             Undefined \<Rightarrow> Undefined
                           | Throws e (b1, w3) \<Rightarrow>
                               Throws e (set_buffer v b1, w3\<lparr>destroyed := destroyed w3 + 1\<rparr>)
                           | Returns u1 (b1, w3) \<Rightarrow>
                              (case RawMemory_index (data_m v) index of
                                 None \<Rightarrow> Undefined
                               | Some r \<Rightarrow>
                                  (case assign_at tr MoveAssign r x b1 w3 of
                                     Undefined \<Rightarrow> Undefined
                                   | Throws e (b2, w4) \<Rightarrow>
                                       Throws e (set_buffer v b2,
                                                 w4\<lparr>destroyed := destroyed w4 + 1\<rparr>)
                                   | Returns u2 (b2, w4) \<Rightarrow>
                                       Returns (Iter (unat index))
                                         ((set_buffer v b2)\<lparr>size_m := size_m v + 1\<rparr>,
                                          w4\<lparr>destroyed := destroyed w4 + 1\<rparr>)))))))))"

definition Emplace ::
  "'a traits \<Rightarrow> op_kind \<Rightarrow> size_t \<Rightarrow> 'a \<Rightarrow> 'a Vector \<Rightarrow> world
     \<Rightarrow> (ret, 'a Vector \<times> world) outcome" where
  "Emplace tr k pos x v w =
     (if size_m v = Capacity v then EmplaceWithRelocation tr k pos x v w
      else EmplaceWithoutRelocation tr k pos x v w)"

text \<open>\<open>*it\<close> for the iterator a call returned.\<close>

fun deref :: "ret \<Rightarrow> ret" where
  "deref (Iter i) = ElemRef i"
| "deref r = r"

text \<open>\<open>T &EmplaceBack(Args &&...)\<close>; the overload on rvalue vectors does the same and
  returns \<open>T &&\<close>. The \<open>const &\<close> overload calls the non-const \<open>Emplace\<close> and cannot
  be instantiated.\<close>

definition EmplaceBack ::
  "'a traits \<Rightarrow> op_kind \<Rightarrow> 'a \<Rightarrow> 'a Vector \<Rightarrow> world \<Rightarrow> (ret, 'a Vector \<times> world) outcome" where
  "EmplaceBack tr k x v w =
     (case Emplace tr k (size_m v) x v w of
        Undefined \<Rightarrow> Undefined
      | Throws e st \<Rightarrow> Throws e st
      | Returns it st \<Rightarrow> Returns (deref it) st)"

text \<open>\<open>void PushBack(const T &)\<close> and \<open>void PushBack(T &&)\<close>.\<close>

definition PushBack ::
  "'a traits \<Rightarrow> op_kind \<Rightarrow> 'a \<Rightarrow> 'a Vector \<Rightarrow> world \<Rightarrow> (ret, 'a Vector \<times> world) outcome" where
  "PushBack tr k x v w =
     (case EmplaceBack tr k x v w of
        Undefined \<Rightarrow> Undefined
      | Throws e st \<Rightarrow> Throws e st
      | Returns r st \<Rightarrow> Returns Void st)"

definition PushBack_copy ::
  "'a traits \<Rightarrow> 'a \<Rightarrow> 'a Vector \<Rightarrow> world \<Rightarrow> (ret, 'a Vector \<times> world) outcome" where
  "PushBack_copy tr x v w = PushBack tr CopyCtor x v w"


text \<open>\<open>Insert(const_iterator, const T &)\<close> and \<open>Insert(const_iterator, T &&)\<close>.\<close>

definition Insert_copy ::
  "'a traits \<Rightarrow> size_t \<Rightarrow> 'a \<Rightarrow> 'a Vector \<Rightarrow> world \<Rightarrow> (ret, 'a Vector \<times> world) outcome" where
  "Insert_copy tr pos x v w = Emplace tr CopyCtor pos x v w"


definition Erase ::
  "'a traits \<Rightarrow> size_t \<Rightarrow> 'a Vector \<Rightarrow> world \<Rightarrow> (ret, 'a Vector \<times> world) outcome" where
  "Erase tr pos v w =
     (let position = pos in
      if unat (size_m v) < unat position + 1 then Undefined
      else
        case move_n tr (unat position + 1) (unat (size_m v) - (unat position + 1))
               (unat position) (buffer_m (data_m v)) w of
          Undefined \<Rightarrow> Undefined
        | Throws e (b, w1) \<Rightarrow> Throws e (set_buffer v b, w1)
        | Returns u (b, w1) \<Rightarrow>
           (case RawMemory_index (data_m v) (size_m v - 1) of
              None \<Rightarrow> Undefined
            | Some q \<Rightarrow>
               (case destroy_at q b w1 of
                  None \<Rightarrow> Undefined
                | Some (b1, w2) \<Rightarrow>
                    Returns (Iter (unat position))
                      ((set_buffer v b1)\<lparr>size_m := size_m v - 1\<rparr>, w2))))"

section \<open>Assignment\<close>

text \<open>
  Both assignment operators compare \<open>this\<close> with \<open>&rhs\<close>, so they are modelled on a
  store of vector objects: an address holds a vector. \<open>assign_copy\<close> is
  \<open>operator=(const Vector &)\<close> and \<open>assign_move\<close> is \<open>operator=(Vector &&)\<close>; both
  return \<open>*this\<close>. The temporary \<open>rhs_copy\<close> of the copy-and-swap branch is destroyed
  when the branch is left.
\<close>

type_synonym 'a store = "nat \<Rightarrow> 'a Vector"

definition assign_copy ::
  "'a traits \<Rightarrow> nat \<Rightarrow> nat \<Rightarrow> 'a store \<Rightarrow> world \<Rightarrow> (ret, 'a store \<times> world) outcome" where
  "assign_copy tr this rhs st w =
     (if this \<noteq> rhs then
        (if size_m (st rhs) > capacity_m (data_m (st this)) then
           (case Vector_copy tr (st rhs) w of
              Undefined \<Rightarrow> Undefined
            | Throws e w1 \<Rightarrow> Throws e (st, w1)
            | Returns rhs_copy w1 \<Rightarrow>
               (case Swap (st this) rhs_copy of
                  (t, rc) \<Rightarrow>
                    (case Vector_dtor rc w1 of
                       None \<Rightarrow> Undefined
                     | Some w2 \<Rightarrow> Returns (VecRef this) (st(this := t), w2))))
         else
           (case copy_n tr (buffer_m (data_m (st rhs))) 0
                   (unat (min (size_m (st rhs)) (size_m (st this)))) 0
                   (buffer_m (data_m (st this))) w of
              Undefined \<Rightarrow> Undefined
            | Throws e (b, w1) \<Rightarrow> Throws e (st(this := set_buffer (st this) b), w1)
            | Returns u (b, w1) \<Rightarrow>
               (if size_m (st rhs) < size_m (st this) then
                  (case destroy_n (unat (size_m (st rhs)))
                          (unat (size_m (st this) - size_m (st rhs))) b w1 of
                     None \<Rightarrow> Undefined
                   | Some (b1, w2) \<Rightarrow>
                       Returns (VecRef this)
                         (st(this := (set_buffer (st this) b1)\<lparr>size_m := size_m (st rhs)\<rparr>),
                          w2))
                else
                  (case uninitialized_copy_n tr (buffer_m (data_m (st rhs)))
                          (unat (size_m (st this)))
                          (unat (size_m (st rhs) - size_m (st this))) b
                          (unat (size_m (st this))) w1 of
                     Undefined \<Rightarrow> Undefined
                   | Throws e (src, b1, w2) \<Rightarrow>
                       Throws e (st(this := set_buffer (st this) b1), w2)
                   | Returns u' (src, b1, w2) \<Rightarrow>
                       Returns (VecRef this)
                         (st(this := (set_buffer (st this) b1)\<lparr>size_m := size_m (st rhs)\<rparr>),
                          w2)))))
      else Returns (VecRef this) (st, w))"

definition assign_move ::
  "nat \<Rightarrow> nat \<Rightarrow> 'a store \<Rightarrow> world \<Rightarrow> (ret, 'a store \<times> world) outcome" where
  "assign_move this rhs st w =
     (if this \<noteq> rhs then
        (case Swap (st this) (st rhs) of
           (t, r) \<Rightarrow> Returns (VecRef this) (st(this := t, rhs := r), w))
      else Returns (VecRef this) (st, w))"

section \<open>The invariant and the element sequence\<close>

text \<open>
  The slots \<open>[0, size)\<close> hold live objects, the slots \<open>[size, capacity)\<close> are raw, the
  block has \<open>capacity\<close> slots and \<open>size \<le> capacity\<close>.
\<close>

definition Vector_inv :: "'a Vector \<Rightarrow> bool" where
  "Vector_inv v =
     (length (buffer_m (data_m v)) = unat (capacity_m (data_m v))
      \<and> size_m v \<le> capacity_m (data_m v)
      \<and> list_all (\<lambda>s. s \<noteq> None) (take (unat (size_m v)) (buffer_m (data_m v)))
      \<and> list_all (\<lambda>s. s = None) (drop (unat (size_m v)) (buffer_m (data_m v))))"

text \<open>The values of the elements, in order.\<close>

definition elements :: "'a Vector \<Rightarrow> 'a list" where
  "elements v = map the (take (unat (size_m v)) (buffer_m (data_m v)))"
section \<open>Auxiliary definitions\<close>

text \<open>The constructor \<open>MoveIfItsPossible\<close> transfers with: chosen once per call, from the
  element type.\<close>

definition transfer_kind :: "'a traits \<Rightarrow> op_kind" where
  "transfer_kind tr =
     (if nothrow_move_constructible tr \<or> \<not> copy_constructible tr then MoveCtor else CopyCtor)"


text \<open>Concrete element types, states and vectors on which the theorems below are run.
  \<open>ex_traits\<close> is an element type like \<open>int\<close>: nothing throws, a move is a copy.\<close>

definition ex_traits :: "nat traits" where
  "ex_traits = \<lparr>nothrow_move_constructible = True, copy_constructible = True,
     throws = (\<lambda>k t x. False), alloc_fails = (\<lambda>t n. False),
     moved_from = (\<lambda>x. x), value_init = 0\<rparr>"

definition ex_world :: world where
  "ex_world = \<lparr>tick = 0, constructed = 0, destroyed = 0, allocated = 0, released = 0\<rparr>"

definition ex_vector :: "nat Vector" where
  "ex_vector = \<lparr>data_m = \<lparr>buffer_m = [Some 1, Some 2, Some 3], capacity_m = 3\<rparr>, size_m = 3\<rparr>"







text \<open>An element type that is copied on relocation (its move constructor is not
  \<open>noexcept\<close>) and whose copy constructor throws at event 3: after one allocation, on
  its third call.\<close>

definition ex_copy_throws :: "nat traits" where
  "ex_copy_throws = \<lparr>nothrow_move_constructible = False, copy_constructible = True,
     throws = (\<lambda>k t x. k = CopyCtor \<and> t = 3), alloc_fails = (\<lambda>t n. False),
     moved_from = (\<lambda>x. 0), value_init = 0\<rparr>"

definition ex_world_failed :: world where
  "ex_world_failed = \<lparr>tick = 4, constructed = 2, destroyed = 2, allocated = 1, released = 1\<rparr>"




text \<open>A store with a short vector at address 0 and \<open>ex_vector\<close> at address 1.\<close>

definition ex_short :: "nat Vector" where
  "ex_short = \<lparr>data_m = \<lparr>buffer_m = [Some 7, None], capacity_m = 2\<rparr>, size_m = 1\<rparr>"

definition ex_store :: "nat store" where
  "ex_store = (\<lambda>a. if a = 0 then ex_short else if a = 1 then ex_vector else Vector_default)"


text \<open>An element type whose move assignment throws; a moved-from object has the value 0.\<close>

definition ex_assign_throws :: "nat traits" where
  "ex_assign_throws = \<lparr>nothrow_move_constructible = True, copy_constructible = True,
     throws = (\<lambda>k t x. k = MoveAssign), alloc_fails = (\<lambda>t n. False),
     moved_from = (\<lambda>x. 0), value_init = 0\<rparr>"

text \<open>The vectors of a run that starts from the default constructor and pushes 1, 2
  and 3, and the vector an interrupted insertion leaves behind.\<close>

definition ex_pushed1 :: "nat Vector" where
  "ex_pushed1 = \<lparr>data_m = \<lparr>buffer_m = [Some 1], capacity_m = 1\<rparr>, size_m = 1\<rparr>"

definition ex_pushed2 :: "nat Vector" where
  "ex_pushed2 = \<lparr>data_m = \<lparr>buffer_m = [Some 1, Some 2], capacity_m = 2\<rparr>, size_m = 2\<rparr>"

definition ex_pushed3 :: "nat Vector" where
  "ex_pushed3 =
     \<lparr>data_m = \<lparr>buffer_m = [Some 1, Some 2, Some 3, None], capacity_m = 4\<rparr>, size_m = 3\<rparr>"

definition ex_leaked :: "nat Vector" where
  "ex_leaked =
     \<lparr>data_m = \<lparr>buffer_m = [Some 1, Some 2, Some 0, Some 3], capacity_m = 4\<rparr>, size_m = 3\<rparr>"

definition ex_world1 :: world where
  "ex_world1 = \<lparr>tick = 2, constructed = 1, destroyed = 0, allocated = 1, released = 0\<rparr>"

definition ex_world2 :: world where
  "ex_world2 = \<lparr>tick = 5, constructed = 3, destroyed = 1, allocated = 2, released = 1\<rparr>"

definition ex_world3 :: world where
  "ex_world3 = \<lparr>tick = 9, constructed = 6, destroyed = 3, allocated = 3, released = 2\<rparr>"

definition ex_world_leaked :: world where
  "ex_world_leaked = \<lparr>tick = 12, constructed = 8, destroyed = 4, allocated = 3, released = 2\<rparr>"

text \<open>An element type none of whose operations throws, with an allocator that never
  fails.\<close>

definition never_throws :: "'a traits \<Rightarrow> bool" where
  "never_throws tr = ((\<forall>k t x. \<not> throws tr k t x) \<and> (\<forall>t n. \<not> alloc_fails tr t n))"

section \<open>Lemmas about the algorithms on raw memory\<close>

subsection \<open>Single objects and the loops of the standard algorithms\<close>

lemma construct_at_Returns:
  "construct_at tr k i x buf w = Returns u (buf', w') \<Longrightarrow>
     i < length buf \<and> buf' = buf[i := Some x]
     \<and> w' = w\<lparr>tick := tick w + 1, constructed := constructed w + 1\<rparr>"
  by (auto simp: construct_at_def split: if_splits)

lemma construct_at_Throws:
  "construct_at tr k i x buf w = Throws e (buf', w') \<Longrightarrow>
     i < length buf \<and> buf' = buf \<and> e = elem_exn \<and> op_throws tr k (tick w) x
     \<and> w' = w\<lparr>tick := tick w + 1\<rparr>"
  by (auto simp: construct_at_def split: if_splits)

lemma assign_at_Returns:
  "assign_at tr k i x buf w = Returns u (buf', w') \<Longrightarrow>
     i < length buf \<and> buf ! i \<noteq> None \<and> buf' = buf[i := Some x]
     \<and> w' = w\<lparr>tick := tick w + 1\<rparr>"
  by (auto simp: assign_at_def split: if_splits)

lemma assign_at_Throws:
  "assign_at tr k i x buf w = Throws e (buf', w') \<Longrightarrow>
     i < length buf \<and> buf' = buf \<and> e = elem_exn \<and> w' = w\<lparr>tick := tick w + 1\<rparr>"
  by (auto simp: assign_at_def split: if_splits)

lemma destroy_at_Some:
  "destroy_at i buf w = Some (buf', w') \<Longrightarrow>
     i < length buf \<and> buf ! i \<noteq> None \<and> buf' = buf[i := None]
     \<and> w' = w\<lparr>destroyed := destroyed w + 1\<rparr>"
  by (auto simp: destroy_at_def split: if_splits)

lemma object_at_Some:
  "object_at buf i = Some x \<Longrightarrow> i < length buf \<and> buf ! i = Some x"
  by (auto simp: object_at_def split: if_splits)

lemma destroy_n_Some:
  "destroy_n f n buf w = Some (buf', w') \<Longrightarrow>
     length buf' = length buf \<and> (n = 0 \<or> f + n \<le> length buf)
     \<and> (\<forall>j<length buf. buf' ! j = (if f \<le> j \<and> j < f + n then None else buf ! j))
     \<and> w' = w\<lparr>destroyed := destroyed w + n\<rparr>"
proof (induction n arbitrary: f buf w)
  case 0
  then show ?case by auto
next
  case (Suc n)
  from Suc.prems obtain b1 w1 where d: "destroy_at f buf w = Some (b1, w1)"
    and r: "destroy_n (Suc f) n b1 w1 = Some (buf', w')"
    by (auto split: option.splits)
  note d' = destroy_at_Some [OF d]
  note ih = Suc.IH [OF r]
  show ?case using d' ih by (auto simp: nth_list_update)
qed

lemma uninitialized_n_Returns:
  "uninitialized_n tr k s d n src dst w = Returns u (src', dst', w') \<Longrightarrow>
     length src' = length src \<and> length dst' = length dst
     \<and> (n = 0 \<or> (s + n \<le> length src \<and> d + n \<le> length dst))
     \<and> (\<forall>j<length dst. dst' ! j = (if d \<le> j \<and> j < d + n then src ! (s + (j - d)) else dst ! j))
     \<and> (\<forall>j<length src. src' ! j =
           (if s \<le> j \<and> j < s + n then map_option (src_after tr k) (src ! j) else src ! j))
     \<and> (\<forall>j. s \<le> j \<and> j < s + n \<longrightarrow> src ! j \<noteq> None)
     \<and> w' = w\<lparr>tick := tick w + n, constructed := constructed w + n\<rparr>"
proof (induction n arbitrary: s d src dst w u)
  case 0
  then show ?case by auto
next
  case (Suc n)
  from Suc.prems obtain x d1 w1 where
    o: "object_at src s = Some x" and
    c: "construct_at tr k d x dst w = Returns () (d1, w1)" and
    r: "uninitialized_n tr k (Suc s) (Suc d) n (src[s := Some (src_after tr k x)]) d1 w1
          = Returns () (src', dst', w')"
    by (auto split: option.splits outcome.splits)
  note o' = object_at_Some [OF o]
  note c' = construct_at_Returns [OF c]
  note ih = Suc.IH [OF r]
  have l: "length src' = length src" "length dst' = length dst" using ih c' by auto
  have b: "s + Suc n \<le> length src \<and> d + Suc n \<le> length dst" using ih c' o' by auto
  have w: "w' = w\<lparr>tick := tick w + Suc n, constructed := constructed w + Suc n\<rparr>"
    using ih c' by simp
  have dd: "\<forall>j<length dst. dst' ! j = (if d \<le> j \<and> j < d + Suc n then src ! (s + (j - d)) else dst ! j)"
  proof (intro allI impI)
    fix j assume j: "j < length dst"
    show "dst' ! j = (if d \<le> j \<and> j < d + Suc n then src ! (s + (j - d)) else dst ! j)"
    proof (cases "j = d")
      case True
      then show ?thesis using ih c' o' j by simp
    next
      case False
      show ?thesis
      proof (cases "d < j \<and> j < d + Suc n")
        case True
        then have e: "Suc s + (j - Suc d) = s + (j - d)" "s \<noteq> s + (j - d)" by arith+
        have "dst' ! j = src[s := Some (src_after tr k x)] ! (Suc s + (j - Suc d))"
          using ih c' j True by auto
        then show ?thesis using e True by simp
      next
        case F: False
        then have "dst' ! j = d1 ! j" using ih c' j False by auto
        then show ?thesis using F False c' by auto
      qed
    qed
  qed
  have ss: "\<forall>j<length src. src' ! j =
           (if s \<le> j \<and> j < s + Suc n then map_option (src_after tr k) (src ! j) else src ! j)"
    using ih o' by (auto simp: nth_list_update)
  have nn: "\<forall>j. s \<le> j \<and> j < s + Suc n \<longrightarrow> src ! j \<noteq> None"
  proof (intro allI impI)
    fix j assume j: "s \<le> j \<and> j < s + Suc n"
    show "src ! j \<noteq> None"
    proof (cases "j = s")
      case True then show ?thesis using o' by simp
    next
      case False
      then have "Suc s \<le> j \<and> j < Suc s + n" using j by simp
      then have "src[s := Some (src_after tr k x)] ! j \<noteq> None" using ih by blast
      then show ?thesis using False by simp
    qed
  qed
  show ?case using l b w dd ss nn by simp
qed


lemma uninitialized_n_Throws:
  "uninitialized_n tr k s d n src dst w = Throws e (src', dst', w') \<Longrightarrow>
     length src' = length src \<and> length dst' = length dst
     \<and> (\<forall>j<length dst. dst' ! j = dst ! j \<or> (d \<le> j \<and> j < d + n \<and> dst' ! j = None))
     \<and> (\<forall>j<length src. src' ! j = src ! j
            \<or> (s \<le> j \<and> j < s + n \<and> src' ! j = map_option (src_after tr k) (src ! j)))
     \<and> e = elem_exn
     \<and> (\<exists>m<n. w' = w\<lparr>tick := tick w + m + 1, constructed := constructed w + m,
                       destroyed := destroyed w + m\<rparr>)"
proof (induction n arbitrary: s d src dst w src' dst' w')
  case 0
  then show ?case by auto
next
  case (Suc n)
  from Suc.prems obtain x where o: "object_at src s = Some x"
    by (auto split: option.splits)
  note o' = object_at_Some [OF o]
  show ?case
  proof (cases "construct_at tr k d x dst w")
    case Undefined
    then show ?thesis using Suc.prems o by simp
  next
    case (Throws e1 st1)
    obtain b1 w1 where st1: "st1 = (b1, w1)" by (cases st1)
    note c' = construct_at_Throws [OF Throws [unfolded st1]]
    have "src' = src" "dst' = b1" "w' = w1" "e = e1"
      using Suc.prems o Throws st1 by auto
    then show ?thesis using c' by (auto intro: exI [of _ 0])
  next
    case (Returns u1 st1)
    obtain d1 w1 where st1: "st1 = (d1, w1)" by (cases st1)
    note c' = construct_at_Returns [OF Returns [unfolded st1]]
    let ?src1 = "src[s := Some (src_after tr k x)]"
    from Suc.prems o Returns st1 obtain s2 d2 w2 where
      r: "uninitialized_n tr k (Suc s) (Suc d) n ?src1 d1 w1 = Throws e (s2, d2, w2)" and
      da: "destroy_at d d2 w2 = Some (dst', w')" and s2: "src' = s2"
      by (auto split: outcome.splits option.splits)
    note ih = Suc.IH [OF r]
    note da' = destroy_at_Some [OF da]
    from ih obtain m where m: "m < n"
      "w2 = w1\<lparr>tick := tick w1 + m + 1, constructed := constructed w1 + m,
                 destroyed := destroyed w1 + m\<rparr>" by blast
    have l: "length src' = length src" "length dst' = length dst" using ih c' da' s2 by auto
    have dd: "\<forall>j<length dst. dst' ! j = dst ! j \<or> (d \<le> j \<and> j < d + Suc n \<and> dst' ! j = None)"
    proof (intro allI impI)
      fix j assume j: "j < length dst"
      show "dst' ! j = dst ! j \<or> (d \<le> j \<and> j < d + Suc n \<and> dst' ! j = None)"
      proof (cases "j = d")
        case True
        then show ?thesis using da' j l by simp
      next
        case False
        have "d2 ! j = d1 ! j \<or> (Suc d \<le> j \<and> j < Suc d + n \<and> d2 ! j = None)"
          using ih j c' by auto
        then show ?thesis using False da' c' j by auto
      qed
    qed
    have ss: "\<forall>j<length src. src' ! j = src ! j
            \<or> (s \<le> j \<and> j < s + Suc n \<and> src' ! j = map_option (src_after tr k) (src ! j))"
    proof (intro allI impI)
      fix j assume j: "j < length src"
      have a: "s2 ! j = ?src1 ! j
            \<or> (Suc s \<le> j \<and> j < Suc s + n \<and> s2 ! j = map_option (src_after tr k) (?src1 ! j))"
        using ih j by auto
      show "src' ! j = src ! j
            \<or> (s \<le> j \<and> j < s + Suc n \<and> src' ! j = map_option (src_after tr k) (src ! j))"
      proof (cases "j = s")
        case True
        then show ?thesis using a o' s2 j by auto
      next
        case False
        then show ?thesis using a s2 by auto
      qed
    qed
    have ww: "w' = w\<lparr>tick := tick w + Suc m + 1, constructed := constructed w + Suc m,
                       destroyed := destroyed w + Suc m\<rparr>"
      using m da' c' by simp
    have "\<exists>m<Suc n. w' = w\<lparr>tick := tick w + m + 1, constructed := constructed w + m,
                       destroyed := destroyed w + m\<rparr>"
      using ww m(1) by (intro exI [of _ "Suc m"]) simp
    moreover have "e = elem_exn" using ih by simp
    ultimately show ?thesis using l dd ss by simp
  qed
qed


lemma uninitialized_n_copy_src:
  "uninitialized_n tr CopyCtor s d n src dst w = r \<Longrightarrow>
   r = Returns u (src', dst', w') \<or> r = Throws e (src', dst', w') \<Longrightarrow> src' = src"
proof (induction n arbitrary: s d dst w r u e src' dst' w')
  case 0
  then show ?case by auto
next
  case (Suc n)
  from Suc.prems obtain x where o: "object_at src s = Some x"
    by (auto split: option.splits)
  note o' = object_at_Some [OF o]
  have id: "src[s := Some x] = src"
    using o' by (simp add: list_update_same_conv)
  show ?case
  proof (cases "construct_at tr CopyCtor d x dst w")
    case Undefined
    then show ?thesis using Suc.prems o by auto
  next
    case (Throws e1 st1)
    then show ?thesis using Suc.prems o by (cases st1) auto
  next
    case (Returns u1 st1)
    obtain d1 w1 where st1: "st1 = (d1, w1)" by (cases st1)
    show ?thesis
    proof (cases "uninitialized_n tr CopyCtor (Suc s) (Suc d) n src d1 w1")
      case Undefined
      then show ?thesis using Suc.prems o Returns st1 by (auto simp: id)
    next
      case R: (Returns u2 st2)
      obtain s2 d2 w2 where st2: "st2 = (s2, d2, w2)" by (cases st2)
      have "s2 = src" using Suc.IH [OF R] st2 by blast
      then show ?thesis using Suc.prems o Returns st1 R st2 by (auto simp: id)
    next
      case T: (Throws e2 st2)
      obtain s2 d2 w2 where st2: "st2 = (s2, d2, w2)" by (cases st2)
      have "s2 = src" using Suc.IH [OF T] st2 by blast
      then show ?thesis using Suc.prems o Returns st1 T st2
        by (auto simp: id split: option.splits)
    qed
  qed
qed


subsection \<open>Allocation and \<open>Reserve\<close>\<close>

lemma RawMemory_new_Returns:
  "RawMemory_new tr c w = Returns m w' \<Longrightarrow>
     m = \<lparr>buffer_m = replicate (unat c) None, capacity_m = c\<rparr>
     \<and> w' = (if c = 0 then w else w\<lparr>tick := tick w + 1, allocated := allocated w + 1\<rparr>)"
  by (auto simp: RawMemory_new_def Allocate_def split: if_splits)

lemma RawMemory_new_Throws:
  "RawMemory_new tr c w = Throws e w' \<Longrightarrow>
     e = bad_alloc \<and> c \<noteq> 0 \<and> w' = w\<lparr>tick := tick w + 1\<rparr>"
  by (auto simp: RawMemory_new_def Allocate_def split: if_splits)

lemma MoveIfItsPossible_eq:
  "MoveIfItsPossible tr src s n dst d w = uninitialized_n tr (transfer_kind tr) s d n src dst w"
  by (simp add: MoveIfItsPossible_def transfer_kind_def uninitialized_move_n_def
      uninitialized_copy_n_def)

lemma Reserve_Returns:
  assumes "Reserve tr n v w = Returns r (v', w')" and "Capacity v < n"
  shows "\<exists>old nb w1 w2.
      uninitialized_n tr (transfer_kind tr) 0 0 (unat (size_m v)) (buffer_m (data_m v))
        (replicate (unat n) None) w1 = Returns () (old, nb, w2)
      \<and> v' = v\<lparr>data_m := \<lparr>buffer_m = nb, capacity_m = n\<rparr>\<rparr> \<and> r = Void"
proof -
  have nle: "\<not> n \<le> capacity_m (data_m v)" using assms(2) by (simp add: Capacity_def)
  from assms(1) nle obtain nd w1 where
    a: "RawMemory_new tr n w = Returns nd w1"
    by (auto simp: Reserve_def split: outcome.splits)
  note a' = RawMemory_new_Returns [OF a]
  from assms(1) nle a obtain old nb w2 where
    m: "MoveIfItsPossible tr (buffer_m (data_m v)) 0 (unat (size_m v)) (buffer_m nd) 0 w1
          = Returns () (old, nb, w2)"
    by (auto simp: Reserve_def split: outcome.splits)
  from assms(1) nle a m obtain old' w3 where
    d: "destroy_n 0 (unat (size_m v)) old w2 = Some (old', w3)"
    by (auto simp: Reserve_def split: option.splits)
  have "v' = v\<lparr>data_m := \<lparr>buffer_m = nb, capacity_m = n\<rparr>\<rparr> \<and> r = Void"
    using assms(1) nle a m d a' by (auto simp: Reserve_def RawMemory_Swap_def)
  then show ?thesis using m a' by (auto simp: MoveIfItsPossible_eq)
qed

lemma take_cong_nth:
  "n \<le> length xs \<Longrightarrow> n \<le> length ys \<Longrightarrow> \<forall>j<n. xs ! j = ys ! j \<Longrightarrow> take n xs = take n ys"
  by (rule nth_take_lemma) auto

subsection \<open>Insertion with relocation\<close>

lemma unat_inc: "(a::size_t) < b \<Longrightarrow> unat (a + 1) = Suc (unat a)"
  by unat_arith

lemma unat_sub_wrap: "\<not> (b::size_t) \<le> a \<Longrightarrow> unat (a - b) = unat a + 2 ^ 64 - unat b"
  by (simp add: unat_sub_if_size word_size word_le_nat_alt)

lemma unat_double: "Suc (unat (a::size_t)) \<le> unat (a * 2) \<Longrightarrow> unat (a * 2) = 2 * unat a"
proof -
  assume h: "Suc (unat a) \<le> unat (a * 2)"
  have b: "unat a < 2 ^ 64" using unsigned_less [of a, where ?'a = nat] by simp
  have e: "unat (a * 2) = (unat a * 2) mod 2 ^ 64" by (simp add: unat_word_ariths)
  show ?thesis
  proof (cases "unat a * 2 < 2 ^ 64")
    case True
    then show ?thesis using e by simp
  next
    case False
    then have "(unat a * 2) mod 2 ^ 64 = unat a * 2 - 2 ^ 64"
      using b by (simp add: mod_if)
    then show ?thesis using h e b by simp
  qed
qed

lemma EmplaceWithRelocation_Returns:
  assumes "EmplaceWithRelocation tr k pos x v w = Returns r (v', w')"
  defines "c \<equiv> (if size_m v = 0 then 1 else size_m v * 2)"
  defines "src \<equiv> buffer_m (data_m v)"
  shows "\<exists>nb. v' = v\<lparr>data_m := \<lparr>buffer_m = nb, capacity_m = c\<rparr>, size_m := size_m v + 1\<rparr>
     \<and> r = Iter (unat pos) \<and> pos \<le> size_m v \<and> length nb = unat c
     \<and> unat (size_m v) < unat c \<and> unat (size_m v) \<le> length src
     \<and> (\<forall>j<unat c. nb ! j =
           (if j < unat pos then src ! j
            else if j = unat pos then Some x
            else if j \<le> unat (size_m v) then src ! (j - 1)
            else None))
     \<and> (\<forall>j<unat (size_m v). src ! j \<noteq> None)"
proof -
  note D = EmplaceWithRelocation_def Let_def c_def [symmetric]
  from assms(1) obtain nd w1 where
    a: "RawMemory_new tr c w = Returns nd w1"
    by (auto simp: D split: outcome.splits option.splits)
  note a' = RawMemory_new_Returns [OF a]
  from assms(1) a obtain p where
    p: "RawMemory_plus nd pos = Some p"
    by (auto simp: D split: outcome.splits option.splits)
  from assms(1) a p obtain nb0 w2 where
    c0: "construct_at tr k p x (buffer_m nd) w1 = Returns () (nb0, w2)"
    by (auto simp: D split: outcome.splits option.splits)
  from assms(1) a p c0 obtain old nb1 w3 where
    m1: "MoveIfItsPossible tr src 0 (unat pos) nb0 0 w2 = Returns () (old, nb1, w3)"
    by (auto simp: D src_def split: outcome.splits option.splits)
  from assms(1) a p c0 m1 obtain p1 where
    p1: "RawMemory_plus nd (pos + 1) = Some p1"
    by (auto simp: D src_def split: outcome.splits option.splits)
  from assms(1) a p c0 m1 p1 obtain old1 nb2 w4 where
    m2: "MoveIfItsPossible tr old (unat pos) (unat (size_m v - pos)) nb1 p1 w3
           = Returns () (old1, nb2, w4)"
    by (auto simp: D src_def split: outcome.splits option.splits)
  from assms(1) a p c0 m1 p1 m2 obtain old2 w5 where
    d: "destroy_n 0 (unat (size_m v)) old1 w4 = Some (old2, w5)"
    by (auto simp: D src_def split: outcome.splits option.splits)
  have v': "v' = v\<lparr>data_m := \<lparr>buffer_m = nb2, capacity_m = c\<rparr>, size_m := size_m v + 1\<rparr>"
    and r: "r = Iter (unat pos)"
    using assms(1) a p c0 m1 p1 m2 d a' by (auto simp: D src_def RawMemory_Swap_def)
  note p' = p [unfolded RawMemory_plus_def]
  note c0' = construct_at_Returns [OF c0]
  note m1' = uninitialized_n_Returns [OF m1 [unfolded MoveIfItsPossible_eq]]
  note m2' = uninitialized_n_Returns [OF m2 [unfolded MoveIfItsPossible_eq]]
  have pu: "p = unat pos" using p' by (auto split: if_splits)
  have lnb0: "length nb0 = unat c" "nb0 = (replicate (unat c) None)[p := Some x]"
    using c0' a' by auto
  have pc: "p < unat c" using c0' a' by auto
  then have "pos < c" using pu by (simp add: word_less_nat_alt)
  then have "unat (pos + 1) = Suc p" using pu unat_inc by simp
  then have p1u: "p1 = Suc p" using p1 by (auto simp: RawMemory_plus_def split: if_splits)
  have cb: "unat c < 2 ^ 64" using unsigned_less [of c, where ?'a = nat] by simp
  let ?n = "unat (size_m v - pos)"
  have n2: "?n = 0 \<or> (p + ?n \<le> length src \<and> Suc p + ?n \<le> unat c)"
    using m2' m1' lnb0 pu p1u by auto
  have le: "pos \<le> size_m v"
  proof (rule ccontr)
    assume n: "\<not> pos \<le> size_m v"
    have "?n = unat (size_m v) + 2 ^ 64 - p" using unat_sub_wrap [OF n] pu by simp
    moreover have "p < 2 ^ 64" using pc cb by simp
    ultimately show False using n2 cb by auto
  qed
  then have n: "?n = unat (size_m v) - p" "p \<le> unat (size_m v)"
    using pu by (simp_all add: unat_sub word_le_nat_alt)
  have s1: "unat (size_m v) < unat c" using n n2 pc by auto
  have s2: "unat (size_m v) \<le> length src" using n n2 m1' pu by auto
  have old: "\<forall>j<length src. p \<le> j \<longrightarrow> old ! j = src ! j" using m1' pu by auto
  have nbj: "\<forall>j<unat c. nb2 ! j =
           (if j < unat pos then src ! j
            else if j = unat pos then Some x
            else if j \<le> unat (size_m v) then src ! (j - 1)
            else None)"
  proof (intro allI impI)
    fix j assume j: "j < unat c"
    have l: "j < length nb1" "j < length nb0" using j m1' lnb0 by auto
    consider "j < p" | "j = p" | "p < j \<and> j \<le> unat (size_m v)" | "unat (size_m v) < j"
      by linarith
    then show "nb2 ! j =
           (if j < unat pos then src ! j
            else if j = unat pos then Some x
            else if j \<le> unat (size_m v) then src ! (j - 1)
            else None)"
    proof cases
      case 1
      then have "nb2 ! j = nb1 ! j" using m2' l p1u by auto
      also have "\<dots> = src ! j" using m1' l 1 pu by auto
      finally show ?thesis using 1 pu by simp
    next
      case 2
      then have "nb2 ! j = nb1 ! j" using m2' l p1u by auto
      also have "\<dots> = nb0 ! j" using m1' l 2 pu by auto
      also have "\<dots> = Some x" using lnb0 2 pc by simp
      finally show ?thesis using 2 pu by simp
    next
      case 3
      then have e: "p + (j - Suc p) = j - 1" "p \<le> j - 1" "j - 1 < length src"
        using s2 by auto
      have "nb2 ! j = old ! (p + (j - Suc p))" using m2' l p1u 3 n pu [symmetric] by auto
      also have "\<dots> = src ! (j - 1)" using old e by simp
      finally show ?thesis using 3 pu by simp
    next
      case 4
      then have "nb2 ! j = nb1 ! j" using m2' l p1u n by auto
      also have "\<dots> = nb0 ! j" using m1' l 4 pu n by auto
      also have "\<dots> = None" using lnb0 4 n j by simp
      finally show ?thesis using 4 pu n by simp
    qed
  qed
  have live: "\<forall>j<unat (size_m v). src ! j \<noteq> None"
  proof (intro allI impI)
    fix j assume j: "j < unat (size_m v)"
    show "src ! j \<noteq> None"
    proof (cases "j < p")
      case True
      then show ?thesis using m1' pu by auto
    next
      case False
      then have "unat pos \<le> j \<and> j < unat pos + ?n" using j n pu by simp
      then have "old ! j \<noteq> None" using m2' by blast
      then show ?thesis using old False j s2 by simp
    qed
  qed
  have "length nb2 = unat c" using m2' m1' lnb0 by simp
  then show ?thesis using v' r le s1 s2 nbj live by blast
qed

subsection \<open>Moves inside one buffer\<close>

lemma move_n_Returns:
  "move_n tr (Suc d) n d buf w = Returns u (buf', w') \<Longrightarrow>
     length buf' = length buf \<and> (n = 0 \<or> Suc d + n \<le> length buf)
     \<and> (\<forall>j<length buf. buf' ! j =
           (if d \<le> j \<and> j < d + n then buf ! (Suc j)
            else if j = d + n \<and> 0 < n then map_option (moved_from tr) (buf ! j)
            else buf ! j))"
proof (induction n arbitrary: d buf w u)
  case 0
  then show ?case by auto
next
  case (Suc n)
  from Suc.prems obtain x b1 w1 where
    o: "object_at buf (Suc d) = Some x" and
    a: "assign_at tr MoveAssign d x buf w = Returns () (b1, w1)" and
    r: "move_n tr (Suc (Suc d)) n (Suc d) (b1[Suc d := Some (moved_from tr x)]) w1
          = Returns u (buf', w')"
    by (auto split: option.splits outcome.splits)
  note o' = object_at_Some [OF o]
  note a' = assign_at_Returns [OF a]
  note ih = Suc.IH [OF r]
  let ?b2 = "b1[Suc d := Some (moved_from tr x)]"
  have l: "length buf' = length buf" "length ?b2 = length buf" using ih a' by auto
  have b: "Suc d + Suc n \<le> length buf" using ih a' o' by auto
  have "\<forall>j<length buf. buf' ! j =
           (if d \<le> j \<and> j < d + Suc n then buf ! (Suc j)
            else if j = d + Suc n \<and> 0 < Suc n then map_option (moved_from tr) (buf ! j)
            else buf ! j)"
  proof (intro allI impI)
    fix j assume j: "j < length buf"
    have i: "buf' ! j =
           (if Suc d \<le> j \<and> j < Suc d + n then ?b2 ! (Suc j)
            else if j = Suc d + n \<and> 0 < n then map_option (moved_from tr) (?b2 ! j)
            else ?b2 ! j)" using ih j l by simp
    consider "j < d" | "j = d" | "d < j \<and> j < Suc d + n" | "j = Suc d + n" | "Suc d + n < j"
      by linarith
    then show "buf' ! j =
           (if d \<le> j \<and> j < d + Suc n then buf ! (Suc j)
            else if j = d + Suc n \<and> 0 < Suc n then map_option (moved_from tr) (buf ! j)
            else buf ! j)"
    proof cases
      case 1
      then show ?thesis using i a' by simp
    next
      case 2
      then show ?thesis using i a' o' by simp
    next
      case 3
      then show ?thesis using i a' by simp
    next
      case 4
      show ?thesis
      proof (cases "n = 0")
        case True
        then show ?thesis using i a' o' 4 j by simp
      next
        case False
        then show ?thesis using i a' 4 by simp
      qed
    next
      case 5
      then show ?thesis using i a' by simp
    qed
  qed
  then show ?case using l b by simp
qed

lemma move_backward_n_Returns:
  "move_backward_n tr n lst (Suc lst) buf w = Returns u (buf', w') \<Longrightarrow>
     length buf' = length buf \<and> n \<le> lst \<and> (n = 0 \<or> lst < length buf)
     \<and> (\<forall>j<length buf. buf' ! j =
           (if lst - n < j \<and> j \<le> lst then buf ! (j - 1)
            else if j = lst - n \<and> 0 < n then map_option (moved_from tr) (buf ! j)
            else buf ! j))"
proof (induction n arbitrary: lst buf w u)
  case 0
  then show ?case by auto
next
  case (Suc n)
  from Suc.prems have l0: "lst \<noteq> 0" by (auto split: if_splits)
  then obtain l1 where l1: "lst = Suc l1" by (cases lst) auto
  from Suc.prems l1 obtain x b1 w1 where
    o: "object_at buf l1 = Some x" and
    a: "assign_at tr MoveAssign lst x buf w = Returns () (b1, w1)" and
    r: "move_backward_n tr n l1 (Suc l1) (b1[l1 := Some (moved_from tr x)]) w1
          = Returns u (buf', w')"
    by (auto split: option.splits outcome.splits)
  note o' = object_at_Some [OF o]
  note a' = assign_at_Returns [OF a]
  note ih = Suc.IH [OF r]
  let ?b2 = "b1[l1 := Some (moved_from tr x)]"
  have l: "length buf' = length buf" "length ?b2 = length buf" using ih a' by auto
  have b: "Suc n \<le> lst" "lst < length buf" using ih a' l1 by auto
  have "\<forall>j<length buf. buf' ! j =
           (if lst - Suc n < j \<and> j \<le> lst then buf ! (j - 1)
            else if j = lst - Suc n \<and> 0 < Suc n then map_option (moved_from tr) (buf ! j)
            else buf ! j)"
  proof (intro allI impI)
    fix j assume j: "j < length buf"
    have i: "buf' ! j =
           (if l1 - n < j \<and> j \<le> l1 then ?b2 ! (j - 1)
            else if j = l1 - n \<and> 0 < n then map_option (moved_from tr) (?b2 ! j)
            else ?b2 ! j)" using ih j l by simp
    have nl: "n \<le> l1" using ih by simp
    consider "j < l1 - n" | "j = l1 - n" | "l1 - n < j \<and> j \<le> l1" | "j = lst" | "lst < j"
      using l1 by linarith
    then show "buf' ! j =
           (if lst - Suc n < j \<and> j \<le> lst then buf ! (j - 1)
            else if j = lst - Suc n \<and> 0 < Suc n then map_option (moved_from tr) (buf ! j)
            else buf ! j)"
    proof cases
      case 1
      then show ?thesis using i a' l1 nl by simp
    next
      case 2
      show ?thesis
      proof (cases "n = 0")
        case True
        then show ?thesis using i a' o' 2 l1 j by simp
      next
        case False
        then show ?thesis using i a' 2 l1 nl by simp
      qed
    next
      case 3
      then have "j - 1 < l1" "j - 1 \<noteq> lst" using l1 by auto
      then show ?thesis using i a' 3 l1 nl by simp
    next
      case 4
      have "l1 - n < Suc l1" "Suc l1 \<noteq> l1 - n" by arith+
      then show ?thesis using 4 i a' o' l1 nl j by simp
    next
      case 5
      then have "\<not> j \<le> l1" "j \<noteq> l1 - n" "j \<noteq> l1" using l1 by arith+
      then show ?thesis using 5 i a' l1 nl by simp
    qed
  qed
  then show ?case using l b by simp
qed

subsection \<open>Insertion without relocation\<close>

lemma EmplaceWithoutRelocation_Returns:
  assumes "EmplaceWithoutRelocation tr k pos x v w = Returns r (v', w')"
  defines "src \<equiv> buffer_m (data_m v)"
  shows "\<exists>b. v' = (set_buffer v b)\<lparr>size_m := size_m v + 1\<rparr>
     \<and> r = Iter (unat pos) \<and> pos \<le> size_m v \<and> size_m v \<le> capacity_m (data_m v)
     \<and> unat (size_m v) < length src \<and> length b = length src
     \<and> (\<forall>j<length src. b ! j =
           (if j < unat pos then src ! j
            else if j = unat pos then Some x
            else if j \<le> unat (size_m v) then src ! (j - 1)
            else src ! j))"
proof (cases "pos = size_m v")
  case True
  note D = EmplaceWithoutRelocation_def Let_def
  from assms(1) True obtain p where
    p: "RawMemory_plus (data_m v) (size_m v) = Some p"
    by (auto simp: D split: outcome.splits option.splits)
  from assms(1) True p obtain b w1 where
    c: "construct_at tr k p x src w = Returns () (b, w1)"
    by (auto simp: D src_def split: outcome.splits option.splits)
  note c' = construct_at_Returns [OF c]
  have pu: "p = unat (size_m v)" "size_m v \<le> capacity_m (data_m v)"
    using p by (auto simp: RawMemory_plus_def split: if_splits)
  have v': "v' = (set_buffer v b)\<lparr>size_m := size_m v + 1\<rparr>" "r = Iter (unat pos)"
    using assms(1) True p c by (auto simp: D src_def)
  have "\<forall>j<length src. b ! j =
           (if j < unat pos then src ! j
            else if j = unat pos then Some x
            else if j \<le> unat (size_m v) then src ! (j - 1)
            else src ! j)"
    using c' pu True by (auto simp: nth_list_update)
  then show ?thesis using v' c' pu True by auto
next
  case False
  note D = EmplaceWithoutRelocation_def Let_def
  let ?w1 = "w\<lparr>tick := tick w + 1, constructed := constructed w + 1\<rparr>"
  from assms(1) False have nt: "\<not> op_throws tr k (tick w) x"
    by (auto simp: D split: if_splits)
  from assms(1) False nt obtain p where
    p: "RawMemory_plus (data_m v) (size_m v) = Some p"
    by (auto simp: D split: outcome.splits option.splits)
  from assms(1) False nt p obtain q where
    q: "RawMemory_index (data_m v) (size_m v - 1) = Some q"
    by (auto simp: D split: outcome.splits option.splits)
  from assms(1) False nt p q obtain y where
    o: "object_at src q = Some y"
    by (auto simp: D src_def split: outcome.splits option.splits)
  from assms(1) False nt p q o obtain b w2 where
    c: "construct_at tr MoveCtor p y src ?w1 = Returns () (b, w2)"
    by (auto simp: D src_def split: outcome.splits option.splits)
  from assms(1) False nt p q o c have ple: "\<not> size_m v - 1 < pos"
    by (auto simp: D src_def split: if_splits)
  from assms(1) False nt p q o c ple obtain b1 w3 where
    m: "move_backward_n tr (unat (size_m v - 1) - unat pos) (unat (size_m v - 1))
          (unat (size_m v)) (b[q := Some (moved_from tr y)]) w2 = Returns () (b1, w3)"
    by (auto simp: D src_def split: outcome.splits option.splits)
  from assms(1) False nt p q o c ple m obtain i where
    i: "RawMemory_index (data_m v) pos = Some i"
    by (auto simp: D src_def split: outcome.splits option.splits)
  from assms(1) False nt p q o c ple m i obtain b2 w4 where
    a: "assign_at tr MoveAssign i x b1 w3 = Returns () (b2, w4)"
    by (auto simp: D src_def split: outcome.splits option.splits)
  have v': "v' = (set_buffer v b2)\<lparr>size_m := size_m v + 1\<rparr>" "r = Iter (unat pos)"
    using assms(1) False nt p q o c ple m i a by (auto simp: D src_def)
  note o' = object_at_Some [OF o]
  note c' = construct_at_Returns [OF c]
  note a' = assign_at_Returns [OF a]
  have pu: "p = unat (size_m v)" "size_m v \<le> capacity_m (data_m v)"
    using p by (auto simp: RawMemory_plus_def split: if_splits)
  have qu: "q = unat (size_m v - 1)" "size_m v - 1 < capacity_m (data_m v)"
    using q by (auto simp: RawMemory_index_def split: if_splits)
  have iu: "i = unat pos" using i by (auto simp: RawMemory_index_def split: if_splits)
  have nz: "size_m v \<noteq> 0"
  proof
    assume z: "size_m v = 0"
    have "capacity_m (data_m v) \<le> - 1" by simp
    then show False using qu(2) z by simp
  qed
  then have q1: "q = unat (size_m v) - 1" "0 < unat (size_m v)" "Suc q = unat (size_m v)"
    using qu(1) by (simp_all add: unat_minus_one unat_gt_0)
  have pq: "unat pos \<le> q" using ple qu(1) by (simp add: word_less_nat_alt)
  let ?bq = "b[q := Some (moved_from tr y)]"
  have m0: "move_backward_n tr (q - unat pos) q (Suc q) ?bq w2 = Returns () (b1, w3)"
    using m qu(1) q1(3) by simp
  note m' = move_backward_n_Returns [OF m0]
  have l: "length b = length src" "length ?bq = length src" "length b1 = length src"
    "length b2 = length src"
    using c' m' a' by auto
  have us: "unat (size_m v) = Suc q" using q1 by simp
  have bq: "?bq = src[Suc q := Some y, q := Some (moved_from tr y)]"
    using c' pu(1) us by simp
  have "\<forall>j<length src. b2 ! j =
           (if j < unat pos then src ! j
            else if j = unat pos then Some x
            else if j \<le> unat (size_m v) then src ! (j - 1)
            else src ! j)"
  proof (intro allI impI)
    fix j assume j: "j < length src"
    have b1j: "b1 ! j =
           (if q - (q - unat pos) < j \<and> j \<le> q then ?bq ! (j - 1)
            else if j = q - (q - unat pos) \<and> 0 < q - unat pos
              then map_option (moved_from tr) (?bq ! j)
            else ?bq ! j)" using m' j l by simp
    have qq: "q - (q - unat pos) = unat pos" using pq by simp
    consider "j < unat pos" | "j = unat pos" | "unat pos < j \<and> j \<le> q" | "j = Suc q" | "Suc q < j"
      by linarith
    then show "b2 ! j =
           (if j < unat pos then src ! j
            else if j = unat pos then Some x
            else if j \<le> unat (size_m v) then src ! (j - 1)
            else src ! j)"
    proof cases
      case 1
      then have "b2 ! j = b1 ! j" using a' iu by simp
      also have "\<dots> = ?bq ! j" using b1j qq 1 by simp
      also have "\<dots> = src ! j" using 1 pq by (simp add: bq)
      finally show ?thesis using 1 by simp
    next
      case 2
      then show ?thesis using a' iu j l by simp
    next
      case 3
      then have n: "j - 1 \<noteq> q" "j - 1 \<noteq> Suc q" by arith+
      have "b2 ! j = b1 ! j" using 3 a' iu by simp
      also have "\<dots> = ?bq ! (j - 1)" using b1j qq 3 by simp
      also have "\<dots> = src ! (j - 1)" using n by (simp add: bq)
      finally show ?thesis using 3 us by simp
    next
      case 4
      then have "b2 ! j = b1 ! j" using a' iu pq by simp
      also have "\<dots> = ?bq ! j" using b1j qq 4 pq by simp
      also have "\<dots> = Some y" using 4 j by (simp add: bq)
      finally show ?thesis using 4 us o' pq by simp
    next
      case 5
      then have "b2 ! j = b1 ! j" using a' iu pq by simp
      also have "\<dots> = ?bq ! j" using b1j qq 5 pq by simp
      also have "\<dots> = src ! j" using 5 by (simp add: bq)
      finally show ?thesis using 5 us pq by simp
    qed
  qed
  moreover have "pos \<le> size_m v" using pq us by (simp add: word_le_nat_alt)
  moreover have "unat (size_m v) < length src" using c' pu by simp
  ultimately show ?thesis using v' l pu by blast
qed

subsection \<open>The invariant by index, and element sequences\<close>

lemma list_all_drop_nth:
  "list_all P (drop n xs) = (\<forall>j<length xs. n \<le> j \<longrightarrow> P (xs ! j))"
proof
  assume h: "list_all P (drop n xs)"
  show "\<forall>j<length xs. n \<le> j \<longrightarrow> P (xs ! j)"
  proof (intro allI impI)
    fix j assume j: "j < length xs" "n \<le> j"
    then have e: "j - n < length (drop n xs)" "n + (j - n) = j" by auto
    from h e(1) have "P (drop n xs ! (j - n))" unfolding list_all_length by blast
    moreover have "drop n xs ! (j - n) = xs ! j" using e j by simp
    ultimately show "P (xs ! j)" by simp
  qed
next
  assume h: "\<forall>j<length xs. n \<le> j \<longrightarrow> P (xs ! j)"
  show "list_all P (drop n xs)"
    unfolding list_all_length
  proof (intro allI impI)
    fix j assume "j < length (drop n xs)"
    then have "n + j < length xs" "n \<le> n + j" by auto
    then show "P (drop n xs ! j)" using h by simp
  qed
qed

lemma list_all_take_nth:
  "n \<le> length xs \<Longrightarrow> list_all P (take n xs) = (\<forall>j<n. P (xs ! j))"
  by (simp add: list_all_length)

lemma Vector_inv_nth:
  "Vector_inv v \<longleftrightarrow>
     length (buffer_m (data_m v)) = unat (capacity_m (data_m v))
     \<and> unat (size_m v) \<le> unat (capacity_m (data_m v))
     \<and> (\<forall>j<unat (capacity_m (data_m v)).
           (buffer_m (data_m v) ! j \<noteq> None) = (j < unat (size_m v)))"
proof (cases "length (buffer_m (data_m v)) = unat (capacity_m (data_m v))
     \<and> unat (size_m v) \<le> unat (capacity_m (data_m v))")
  case False
  then show ?thesis by (auto simp: Vector_inv_def word_le_nat_alt)
next
  case True
  let ?b = "buffer_m (data_m v)" and ?n = "unat (size_m v)" and ?c = "unat (capacity_m (data_m v))"
  have a: "list_all (\<lambda>s. s \<noteq> None) (take ?n ?b) = (\<forall>j<?n. ?b ! j \<noteq> None)"
    using True by (simp add: list_all_take_nth)
  have b: "list_all (\<lambda>s. s = None) (drop ?n ?b) = (\<forall>j<?c. ?n \<le> j \<longrightarrow> ?b ! j = None)"
    using True by (simp add: list_all_drop_nth)
  have c: "((\<forall>j<?n. ?b ! j \<noteq> None) \<and> (\<forall>j<?c. ?n \<le> j \<longrightarrow> ?b ! j = None))
        = (\<forall>j<?c. (?b ! j \<noteq> None) = (j < ?n))"
  proof
    assume h: "(\<forall>j<?n. ?b ! j \<noteq> None) \<and> (\<forall>j<?c. ?n \<le> j \<longrightarrow> ?b ! j = None)"
    show "\<forall>j<?c. (?b ! j \<noteq> None) = (j < ?n)"
    proof (intro allI impI)
      fix j assume j: "j < ?c"
      show "(?b ! j \<noteq> None) = (j < ?n)"
      proof (cases "j < ?n")
        case True
        then show ?thesis using h by simp
      next
        case False
        then have "?n \<le> j" by simp
        then have "?b ! j = None" using h j by blast
        then show ?thesis using False by simp
      qed
    qed
  next
    assume h: "\<forall>j<?c. (?b ! j \<noteq> None) = (j < ?n)"
    have "\<forall>j<?n. ?b ! j \<noteq> None"
    proof (intro allI impI)
      fix j assume "j < ?n"
      moreover from this have "j < ?c" using True by simp
      ultimately show "?b ! j \<noteq> None" using h by blast
    qed
    moreover have "\<forall>j<?c. ?n \<le> j \<longrightarrow> ?b ! j = None"
    proof (intro allI impI)
      fix j assume "j < ?c" "?n \<le> j"
      then have "(?b ! j \<noteq> None) = (j < ?n)" "\<not> j < ?n" using h by auto
      then show "?b ! j = None" by simp
    qed
    ultimately show "(\<forall>j<?n. ?b ! j \<noteq> None) \<and> (\<forall>j<?c. ?n \<le> j \<longrightarrow> ?b ! j = None)" by simp
  qed
  have "Vector_inv v = (list_all (\<lambda>s. s \<noteq> None) (take ?n ?b)
      \<and> list_all (\<lambda>s. s = None) (drop ?n ?b))"
    using True by (simp add: Vector_inv_def word_le_nat_alt)
  then show ?thesis using True a b c by simp
qed

lemma elements_length:
  "unat (size_m v) \<le> length (buffer_m (data_m v)) \<Longrightarrow> length (elements v) = unat (size_m v)"
  by (simp add: elements_def)

lemma elements_nth:
  "j < unat (size_m v) \<Longrightarrow> unat (size_m v) \<le> length (buffer_m (data_m v)) \<Longrightarrow>
     elements v ! j = the (buffer_m (data_m v) ! j)"
  by (simp add: elements_def)

lemma list_insert_nth:
  assumes "p \<le> length es" and "length ys = Suc (length es)"
    and "\<forall>j<Suc (length es). ys ! j = (if j < p then es ! j else if j = p then x else es ! (j - 1))"
  shows "ys = take p es @ x # drop p es"
proof (rule nth_equalityI)
  show "length ys = length (take p es @ x # drop p es)" using assms by simp
next
  fix j assume j: "j < length ys"
  consider "j < p" | "j = p" | "p < j" by linarith
  then show "ys ! j = (take p es @ x # drop p es) ! j"
  proof cases
    case 1
    then show ?thesis using assms j by (simp add: nth_append)
  next
    case 2
    then show ?thesis using assms j by (simp add: nth_append)
  next
    case 3
    then obtain i where i: "j = Suc (p + i)" by (metis less_iff_Suc_add)
    then show ?thesis using assms j 3 by (simp add: nth_append)
  qed
qed

lemma list_erase_nth:
  assumes "p < length es" and "Suc (length ys) = length es"
    and "\<forall>j<length ys. ys ! j = (if j < p then es ! j else es ! Suc j)"
  shows "ys = take p es @ drop (Suc p) es"
proof (rule nth_equalityI)
  show "length ys = length (take p es @ drop (Suc p) es)" using assms by auto
next
  fix j assume j: "j < length ys"
  show "ys ! j = (take p es @ drop (Suc p) es) ! j"
  proof (cases "j < p")
    case True
    then show ?thesis using assms j by (simp add: nth_append)
  next
    case False
    then obtain i where i: "j = p + i" by (metis le_iff_add not_less)
    then show ?thesis using assms j False by (simp add: nth_append)
  qed
qed

subsection \<open>What an insertion and an erasure return\<close>

lemma EmplaceWithRelocation_inv:
  assumes "EmplaceWithRelocation tr k pos x v w = Returns r (v', w')"
  shows "r = Iter (unat pos) \<and> pos \<le> size_m v \<and> Vector_inv v'
     \<and> size_m v' = size_m v + 1 \<and> unat (size_m v') = Suc (unat (size_m v))
     \<and> elements v' = take (unat pos) (elements v) @ x # drop (unat pos) (elements v)
     \<and> unat (Capacity v') = max 1 (2 * unat (size_m v))"
proof -
  let ?c = "if size_m v = 0 then 1 else size_m v * 2"
  let ?src = "buffer_m (data_m v)"
  let ?n = "unat (size_m v)"
  from EmplaceWithRelocation_Returns [OF assms] obtain nb where
    v': "v' = v\<lparr>data_m := \<lparr>buffer_m = nb, capacity_m = ?c\<rparr>, size_m := size_m v + 1\<rparr>" and
    r: "r = Iter (unat pos)" and le: "pos \<le> size_m v" and l: "length nb = unat ?c" and
    sc: "?n < unat ?c" and sl: "?n \<le> length ?src" and
    nb: "\<forall>j<unat ?c. nb ! j =
           (if j < unat pos then ?src ! j
            else if j = unat pos then Some x
            else if j \<le> ?n then ?src ! (j - 1)
            else None)" and
    live: "\<forall>j<?n. ?src ! j \<noteq> None"
    by blast
  have p: "unat pos \<le> ?n" using le by (simp add: word_le_nat_alt)
  have cap: "unat ?c = max 1 (2 * ?n)"
  proof (cases "size_m v = 0")
    case True
    then show ?thesis by simp
  next
    case False
    then have "0 < ?n" by (simp add: unat_gt_0)
    moreover have "unat (size_m v * 2) = 2 * ?n" using sc False by (intro unat_double) simp
    ultimately show ?thesis using False by simp
  qed
  have "size_m v < ?c" using sc by (simp add: word_less_nat_alt)
  then have s1: "unat (size_m v + 1) = Suc ?n" by (rule unat_inc)
  have inv: "Vector_inv v'"
    unfolding Vector_inv_nth
  proof (intro conjI allI impI)
    show "length (buffer_m (data_m v')) = unat (capacity_m (data_m v'))" using v' l by simp
    show "unat (size_m v') \<le> unat (capacity_m (data_m v'))" using v' s1 sc by simp
    fix j assume "j < unat (capacity_m (data_m v'))"
    then have j: "j < unat ?c" using v' by simp
    have e: "nb ! j = (if j < unat pos then ?src ! j
            else if j = unat pos then Some x
            else if j \<le> ?n then ?src ! (j - 1)
            else None)" using nb j by blast
    consider "j < unat pos" | "j = unat pos" | "unat pos < j \<and> j \<le> ?n" | "?n < j" by linarith
    then have "(nb ! j \<noteq> None) = (j < Suc ?n)"
    proof cases
      case 1
      then show ?thesis using e live p by simp
    next
      case 2
      then show ?thesis using e p by simp
    next
      case 3
      then have "j - 1 < ?n" by arith
      then have "?src ! (j - 1) \<noteq> None" using live by blast
      then show ?thesis using e 3 by simp
    next
      case 4
      then show ?thesis using e p by simp
    qed
    then show "(buffer_m (data_m v') ! j \<noteq> None) = (j < unat (size_m v'))"
      using v' s1 by simp
  qed
  have el: "length (elements v) = ?n" using sl by (rule elements_length)
  have en: "\<forall>i<?n. elements v ! i = the (?src ! i)" using sl by (simp add: elements_nth)
  have "elements v' = take (unat pos) (elements v) @ x # drop (unat pos) (elements v)"
  proof (rule list_insert_nth)
    show "unat pos \<le> length (elements v)" using el p by simp
    show "length (elements v') = Suc (length (elements v))"
      using el v' s1 sc l by (simp add: elements_def)
    show "\<forall>j<Suc (length (elements v)). elements v' ! j =
      (if j < unat pos then elements v ! j else if j = unat pos then x else elements v ! (j - 1))"
    proof (intro allI impI)
      fix j assume "j < Suc (length (elements v))"
      then have j: "j < Suc ?n" using el by simp
      then have jc: "j < unat ?c" using sc by simp
      have e: "nb ! j = (if j < unat pos then ?src ! j
            else if j = unat pos then Some x
            else if j \<le> ?n then ?src ! (j - 1)
            else None)" using nb jc by blast
      have a: "elements v' ! j = the (nb ! j)"
        using v' s1 j sc l by (simp add: elements_def)
      consider "j < unat pos" | "j = unat pos" | "unat pos < j" by linarith
      then show "elements v' ! j =
        (if j < unat pos then elements v ! j else if j = unat pos then x else elements v ! (j - 1))"
      proof cases
        case 1
        then have "j < ?n" using p by simp
        then show ?thesis using a e 1 en by simp
      next
        case 2
        then show ?thesis using a e by simp
      next
        case 3
        then have "j - 1 < ?n" using j by arith
        then show ?thesis using a e 3 j en by simp
      qed
    qed
  qed
  then show ?thesis using r le inv v' s1 cap by (simp add: Capacity_def)
qed

lemma EmplaceWithoutRelocation_inv:
  assumes "EmplaceWithoutRelocation tr k pos x v w = Returns r (v', w')" and "Vector_inv v"
  shows "r = Iter (unat pos) \<and> pos \<le> size_m v \<and> Vector_inv v'
     \<and> size_m v' = size_m v + 1 \<and> unat (size_m v') = Suc (unat (size_m v))
     \<and> elements v' = take (unat pos) (elements v) @ x # drop (unat pos) (elements v)
     \<and> Capacity v' = Capacity v"
proof -
  let ?src = "buffer_m (data_m v)"
  let ?n = "unat (size_m v)"
  let ?c = "unat (capacity_m (data_m v))"
  from EmplaceWithoutRelocation_Returns [OF assms(1)] obtain b where
    v': "v' = (set_buffer v b)\<lparr>size_m := size_m v + 1\<rparr>" and
    r: "r = Iter (unat pos)" and le: "pos \<le> size_m v" and
    sl: "?n < length ?src" and l: "length b = length ?src" and
    b: "\<forall>j<length ?src. b ! j =
           (if j < unat pos then ?src ! j
            else if j = unat pos then Some x
            else if j \<le> ?n then ?src ! (j - 1)
            else ?src ! j)"
    by blast
  note i = assms(2) [unfolded Vector_inv_nth]
  have lc: "length ?src = ?c" using i by simp
  have live: "\<forall>j<?c. (?src ! j \<noteq> None) = (j < ?n)" using i by simp
  have p: "unat pos \<le> ?n" using le by (simp add: word_le_nat_alt)
  have "size_m v < capacity_m (data_m v)" using sl lc by (simp add: word_less_nat_alt)
  then have s1: "unat (size_m v + 1) = Suc ?n" by (rule unat_inc)
  have inv: "Vector_inv v'"
    unfolding Vector_inv_nth
  proof (intro conjI allI impI)
    show "length (buffer_m (data_m v')) = unat (capacity_m (data_m v'))"
      using v' l lc by (simp add: set_buffer_def)
    show "unat (size_m v') \<le> unat (capacity_m (data_m v'))"
      using v' s1 sl lc by (simp add: set_buffer_def)
    fix j assume "j < unat (capacity_m (data_m v'))"
    then have j: "j < ?c" using v' by (simp add: set_buffer_def)
    have e: "b ! j = (if j < unat pos then ?src ! j
            else if j = unat pos then Some x
            else if j \<le> ?n then ?src ! (j - 1)
            else ?src ! j)" using b j lc by simp
    consider "j < unat pos" | "j = unat pos" | "unat pos < j \<and> j \<le> ?n" | "?n < j" by linarith
    then have "(b ! j \<noteq> None) = (j < Suc ?n)"
    proof cases
      case 1
      have "(?src ! j \<noteq> None) = (j < ?n)" using live j by blast
      then show ?thesis using 1 e p by simp
    next
      case 2
      then show ?thesis using e p by simp
    next
      case 3
      then have "j - 1 < ?n" "j - 1 < ?c" using j by arith+
      then have "?src ! (j - 1) \<noteq> None" using live by blast
      then show ?thesis using e 3 by simp
    next
      case 4
      have "(?src ! j \<noteq> None) = (j < ?n)" using live j by blast
      then have "?src ! j = None" using 4 by simp
      then show ?thesis using e 4 p by simp
    qed
    then show "(buffer_m (data_m v') ! j \<noteq> None) = (j < unat (size_m v'))"
      using v' s1 by (simp add: set_buffer_def)
  qed
  have sl': "?n \<le> length ?src" using sl by simp
  have el: "length (elements v) = ?n" using sl' by (rule elements_length)
  have en: "\<forall>i<?n. elements v ! i = the (?src ! i)" using sl' by (simp add: elements_nth)
  have "elements v' = take (unat pos) (elements v) @ x # drop (unat pos) (elements v)"
  proof (rule list_insert_nth)
    show "unat pos \<le> length (elements v)" using el p by simp
    show "length (elements v') = Suc (length (elements v))"
      using el v' s1 sl l by (simp add: elements_def set_buffer_def)
    show "\<forall>j<Suc (length (elements v)). elements v' ! j =
      (if j < unat pos then elements v ! j else if j = unat pos then x else elements v ! (j - 1))"
    proof (intro allI impI)
      fix j assume "j < Suc (length (elements v))"
      then have j: "j < Suc ?n" using el by simp
      then have jc: "j < length ?src" using sl by simp
      have e: "b ! j = (if j < unat pos then ?src ! j
            else if j = unat pos then Some x
            else if j \<le> ?n then ?src ! (j - 1)
            else ?src ! j)" using b jc by blast
      have a: "elements v' ! j = the (b ! j)"
        using v' s1 j sl l by (simp add: elements_def set_buffer_def)
      consider "j < unat pos" | "j = unat pos" | "unat pos < j" by linarith
      then show "elements v' ! j =
        (if j < unat pos then elements v ! j else if j = unat pos then x else elements v ! (j - 1))"
      proof cases
        case 1
        then have "j < ?n" using p by simp
        then show ?thesis using a e 1 en by simp
      next
        case 2
        then show ?thesis using a e by simp
      next
        case 3
        then have "j - 1 < ?n" using j by arith
        then show ?thesis using a e 3 j en by simp
      qed
    qed
  qed
  then show ?thesis using r le inv v' s1 by (simp add: Capacity_def set_buffer_def)
qed

lemma Emplace_Returns:
  assumes "Emplace tr k pos x v w = Returns r (v', w')" and "Vector_inv v"
  shows "r = Iter (unat pos) \<and> pos \<le> size_m v \<and> Vector_inv v'
     \<and> size_m v' = size_m v + 1 \<and> unat (size_m v') = Suc (unat (size_m v))
     \<and> elements v' = take (unat pos) (elements v) @ x # drop (unat pos) (elements v)
     \<and> unat (Capacity v') =
         (if size_m v = Capacity v then max 1 (2 * unat (Capacity v)) else unat (Capacity v))"
proof (cases "size_m v = Capacity v")
  case True
  then have "EmplaceWithRelocation tr k pos x v w = Returns r (v', w')"
    using assms(1) by (simp add: Emplace_def)
  note f = EmplaceWithRelocation_inv [OF this]
  have "unat (Capacity v') =
         (if size_m v = Capacity v then max 1 (2 * unat (Capacity v)) else unat (Capacity v))"
    using f True [symmetric] by simp
  then show ?thesis using f by blast
next
  case False
  then have "EmplaceWithoutRelocation tr k pos x v w = Returns r (v', w')"
    using assms(1) by (simp add: Emplace_def)
  note f = EmplaceWithoutRelocation_inv [OF this assms(2)]
  have "unat (Capacity v') =
         (if size_m v = Capacity v then max 1 (2 * unat (Capacity v)) else unat (Capacity v))"
    using f False by simp
  then show ?thesis using f by blast
qed

lemma Erase_Returns:
  assumes "Erase tr pos v w = Returns r (v', w')" and "Vector_inv v"
  shows "r = Iter (unat pos) \<and> pos < size_m v \<and> Vector_inv v'
     \<and> size_m v' = size_m v - 1 \<and> Suc (unat (size_m v')) = unat (size_m v)
     \<and> elements v' = take (unat pos) (elements v) @ drop (Suc (unat pos)) (elements v)
     \<and> Capacity v' = Capacity v"
proof -
  let ?src = "buffer_m (data_m v)"
  let ?n = "unat (size_m v)"
  let ?c = "unat (capacity_m (data_m v))"
  let ?p = "unat pos"
  note D = Erase_def Let_def
  from assms(1) have pn: "?p < ?n" by (auto simp: D split: if_splits)
  then have ng: "\<not> ?n < ?p + 1" by simp
  from assms(1) ng obtain b w1 where
    m: "move_n tr (Suc ?p) (?n - Suc ?p) ?p ?src w = Returns () (b, w1)"
    by (auto simp: D split: outcome.splits option.splits)
  from assms(1) ng m obtain q where
    q: "RawMemory_index (data_m v) (size_m v - 1) = Some q"
    by (auto simp: D split: outcome.splits option.splits)
  from assms(1) ng m q obtain b1 w2 where
    d: "destroy_at q b w1 = Some (b1, w2)"
    by (auto simp: D split: outcome.splits option.splits)
  have v': "v' = (set_buffer v b1)\<lparr>size_m := size_m v - 1\<rparr>" and r: "r = Iter ?p"
    using assms(1) ng m q d by (auto simp: D)
  note m' = move_n_Returns [OF m]
  note d' = destroy_at_Some [OF d]
  note i = assms(2) [unfolded Vector_inv_nth]
  have lc: "length ?src = ?c" and nc: "?n \<le> ?c" using i by simp_all
  have live: "\<forall>j<?c. (?src ! j \<noteq> None) = (j < ?n)" using i by simp
  have nz: "size_m v \<noteq> 0" using pn by (auto simp: unat_gt_0 [symmetric])
  then have s1: "unat (size_m v - 1) = ?n - 1" by (simp add: unat_minus_one)
  have qu: "q = ?n - 1" using q s1 by (auto simp: RawMemory_index_def split: if_splits)
  have l: "length b = ?c" "length b1 = ?c" using m' d' lc by auto
  have bj: "\<forall>j<?c. b1 ! j = (if j < ?p then ?src ! j
      else if j < ?n - 1 then ?src ! Suc j
      else if j = ?n - 1 then None else ?src ! j)"
  proof (intro allI impI)
    fix j assume j: "j < ?c"
    have e: "b ! j = (if ?p \<le> j \<and> j < ?p + (?n - Suc ?p) then ?src ! (Suc j)
            else if j = ?p + (?n - Suc ?p) \<and> 0 < ?n - Suc ?p
              then map_option (moved_from tr) (?src ! j)
            else ?src ! j)" using m' j lc by simp
    have pe: "?p + (?n - Suc ?p) = ?n - 1" using pn by arith
    consider "j < ?p" | "?p \<le> j \<and> j < ?n - 1" | "j = ?n - 1" | "?n - 1 < j" by linarith
    then show "b1 ! j = (if j < ?p then ?src ! j
      else if j < ?n - 1 then ?src ! Suc j
      else if j = ?n - 1 then None else ?src ! j)"
    proof cases
      case 1
      then have "j \<noteq> ?n - 1" using pn by arith
      then show ?thesis using 1 e d' qu pe by simp
    next
      case 2
      then show ?thesis using e d' qu pe by simp
    next
      case 3
      then have "\<not> j < ?p" "\<not> j < ?n - 1" using pn by arith+
      then show ?thesis using 3 d' qu by simp
    next
      case 4
      then have "\<not> j < ?p" using pn by arith
      then show ?thesis using 4 e d' qu pe by simp
    qed
  qed
  have inv: "Vector_inv v'"
    unfolding Vector_inv_nth
  proof (intro conjI allI impI)
    show "length (buffer_m (data_m v')) = unat (capacity_m (data_m v'))"
      using v' l by (simp add: set_buffer_def)
    show "unat (size_m v') \<le> unat (capacity_m (data_m v'))"
      using v' s1 nc by (simp add: set_buffer_def)
    fix j assume "j < unat (capacity_m (data_m v'))"
    then have j: "j < ?c" using v' by (simp add: set_buffer_def)
    have e: "b1 ! j = (if j < ?p then ?src ! j
      else if j < ?n - 1 then ?src ! Suc j
      else if j = ?n - 1 then None else ?src ! j)" using bj j by blast
    consider "j < ?p" | "?p \<le> j \<and> j < ?n - 1" | "j = ?n - 1" | "?n - 1 < j" by linarith
    then have "(b1 ! j \<noteq> None) = (j < ?n - 1)"
    proof cases
      case 1
      then have jn: "j < ?n - 1" "j < ?n" using pn by arith+
      have "(?src ! j \<noteq> None) = (j < ?n)" using live j by blast
      then show ?thesis using e 1 jn by simp
    next
      case 2
      then have "Suc j < ?n" "Suc j < ?c" using nc by arith+
      then have "?src ! Suc j \<noteq> None" using live by blast
      then show ?thesis using e 2 by simp
    next
      case 3
      then have "\<not> j < ?p" using pn by arith
      then show ?thesis using e 3 by simp
    next
      case 4
      then have jn: "\<not> j < ?n" "\<not> j < ?p" using pn by arith+
      have "(?src ! j \<noteq> None) = (j < ?n)" using live j by blast
      then have "?src ! j = None" using jn by simp
      then show ?thesis using e 4 jn by simp
    qed
    then show "(buffer_m (data_m v') ! j \<noteq> None) = (j < unat (size_m v'))"
      using v' s1 by (simp add: set_buffer_def)
  qed
  have sl: "?n \<le> length ?src" using lc nc by simp
  have el: "length (elements v) = ?n" using sl by (rule elements_length)
  have en: "\<forall>i<?n. elements v ! i = the (?src ! i)" using sl by (simp add: elements_nth)
  have "elements v' = take ?p (elements v) @ drop (Suc ?p) (elements v)"
  proof (rule list_erase_nth)
    show "?p < length (elements v)" using el pn by simp
    show "Suc (length (elements v')) = length (elements v)"
      using el v' s1 l nc pn by (simp add: elements_def set_buffer_def)
    show "\<forall>j<length (elements v'). elements v' ! j =
        (if j < ?p then elements v ! j else elements v ! Suc j)"
    proof (intro allI impI)
      fix j assume "j < length (elements v')"
      then have j: "j < ?n - 1" using v' s1 l nc by (simp add: elements_def set_buffer_def)
      then have jc: "j < ?c" using nc by simp
      have e: "b1 ! j = (if j < ?p then ?src ! j
        else if j < ?n - 1 then ?src ! Suc j
        else if j = ?n - 1 then None else ?src ! j)" using bj jc by blast
      have a: "elements v' ! j = the (b1 ! j)"
        using v' s1 j l nc by (simp add: elements_def set_buffer_def)
      show "elements v' ! j = (if j < ?p then elements v ! j else elements v ! Suc j)"
      proof (cases "j < ?p")
        case True
        then have "j < ?n" using pn by simp
        then show ?thesis using a e True en by simp
      next
        case False
        have "Suc j < ?n" using j by arith
        then show ?thesis using a e False j en by simp
      qed
    qed
  qed
  moreover have "pos < size_m v" using pn by (simp add: word_less_nat_alt)
  moreover have "Suc (unat (size_m v')) = ?n" using v' s1 pn by simp
  ultimately show ?thesis using r inv v' by (simp add: Capacity_def set_buffer_def)
qed

lemma set_buffer_same [simp]: "set_buffer v (buffer_m (data_m v)) = v"
  by (simp add: set_buffer_def)

lemma transfer_kind_copy:
  "\<not> nothrow_move_constructible tr \<Longrightarrow> copy_constructible tr \<Longrightarrow> transfer_kind tr = CopyCtor"
  by (simp add: transfer_kind_def)

subsection \<open>Insertions that leave by an exception\<close>



subsection \<open>The copy constructor\<close>

lemma Vector_copy_Returns:
  assumes "Vector_copy tr other w = Returns c w'"
  shows "capacity_m (data_m c) = size_m other \<and> size_m c = size_m other
     \<and> elements c = elements other"
proof -
  let ?n = "unat (size_m other)"
  from assms obtain m w1 where a: "RawMemory_new tr (size_m other) w = Returns m w1"
    by (auto simp: Vector_copy_def split: outcome.splits)
  note a' = RawMemory_new_Returns [OF a]
  from assms a obtain src b w2 where
    u: "uninitialized_n tr CopyCtor 0 0 ?n (buffer_m (data_m other)) (buffer_m m) w1
          = Returns () (src, b, w2)" and
    c: "c = \<lparr>data_m = m\<lparr>buffer_m := b\<rparr>, size_m = size_m other\<rparr>"
    by (auto simp: Vector_copy_def uninitialized_copy_n_def split: outcome.splits)
  note u' = uninitialized_n_Returns [OF u]
  have "take ?n b = take ?n (buffer_m (data_m other))"
  proof (cases "?n = 0")
    case True
    then show ?thesis by simp
  next
    case False
    show ?thesis by (rule take_cong_nth) (use u' False in auto)
  qed
  then show ?thesis using c a' by (simp add: elements_def)
qed

lemma Vector_copy_Throws:
  assumes "Vector_copy tr other w = Throws e w'"
  shows "constructed w' + destroyed w = constructed w + destroyed w'
     \<and> allocated w' + released w = allocated w + released w'"
proof (cases "RawMemory_new tr (size_m other) w")
  case Undefined
  then show ?thesis using assms by (simp add: Vector_copy_def)
next
  case (Throws e1 w1)
  note t = RawMemory_new_Throws [OF Throws]
  have "w' = w1" using assms Throws by (simp add: Vector_copy_def)
  then show ?thesis using t by simp
next
  case (Returns m w1)
  note a' = RawMemory_new_Returns [OF Returns]
  let ?n = "unat (size_m other)"
  from assms Returns obtain src b w2 where
    u: "uninitialized_n tr CopyCtor 0 0 ?n (buffer_m (data_m other)) (buffer_m m) w1
          = Throws e (src, b, w2)" and
    w': "w' = RawMemory_dtor (m\<lparr>buffer_m := b\<rparr>) w2"
    by (auto simp: Vector_copy_def uninitialized_copy_n_def split: outcome.splits)
  note u' = uninitialized_n_Throws [OF u]
  from u' obtain k where k: "k < ?n"
    "w2 = w1\<lparr>tick := tick w1 + k + 1, constructed := constructed w1 + k,
               destroyed := destroyed w1 + k\<rparr>" by blast
  have n0: "size_m other \<noteq> 0" using k(1) by (auto simp: unat_gt_0 [symmetric] simp del: unat_gt_0)
  have "length b = ?n" using u' a' by simp
  then have "b \<noteq> []" using k(1) by auto
  then have "w' = w2\<lparr>released := released w2 + 1\<rparr>"
    using w' by (simp add: RawMemory_dtor_def Deallocate_def)
  then show ?thesis using k a' n0 by simp
qed

subsection \<open>Capacity across a call\<close>

lemma Capacity_set_buffer [simp]: "Capacity (set_buffer v b) = Capacity v"
  by (simp add: set_buffer_def Capacity_def)

lemma Capacity_size_update [simp]: "Capacity (v\<lparr>size_m := n\<rparr>) = Capacity v"
  by (simp add: Capacity_def)





lemma size_set_buffer [simp]: "size_m (set_buffer v b) = size_m v"
  by (simp add: set_buffer_def)






subsection \<open>Element types that do not throw: the calls return\<close>

lemma never_throws_op [simp]: "never_throws tr \<Longrightarrow> \<not> op_throws tr k t x"
  by (simp add: never_throws_def op_throws_def)

lemma destroy_n_total:
  "f + n \<le> length buf \<Longrightarrow> \<forall>j. f \<le> j \<and> j < f + n \<longrightarrow> buf ! j \<noteq> None \<Longrightarrow>
     \<exists>buf'. destroy_n f n buf w = Some (buf', w\<lparr>destroyed := destroyed w + n\<rparr>)"
proof (induction n arbitrary: f buf w)
  case 0
  then show ?case by simp
next
  case (Suc n)
  have d: "destroy_at f buf w = Some (buf[f := None], w\<lparr>destroyed := destroyed w + 1\<rparr>)"
    using Suc.prems by (simp add: destroy_at_def)
  have "Suc f + n \<le> length (buf[f := None])" using Suc.prems by simp
  moreover have "\<forall>j. Suc f \<le> j \<and> j < Suc f + n \<longrightarrow> buf[f := None] ! j \<noteq> None"
    using Suc.prems by (simp add: nth_list_update)
  ultimately obtain b' where
    "destroy_n (Suc f) n (buf[f := None]) (w\<lparr>destroyed := destroyed w + 1\<rparr>)
       = Some (b', w\<lparr>destroyed := destroyed w + 1\<rparr>\<lparr>destroyed :=
            destroyed (w\<lparr>destroyed := destroyed w + 1\<rparr>) + n\<rparr>)"
    using Suc.IH by blast
  then show ?case using d by simp
qed

lemma uninitialized_n_total:
  "never_throws tr \<Longrightarrow> s + n \<le> length src \<Longrightarrow> d + n \<le> length dst \<Longrightarrow>
     \<forall>j. s \<le> j \<and> j < s + n \<longrightarrow> src ! j \<noteq> None \<Longrightarrow>
     \<exists>src' dst' w'. uninitialized_n tr k s d n src dst w = Returns () (src', dst', w')"
proof (induction n arbitrary: s d src dst w)
  case 0
  then show ?case by simp
next
  case (Suc n)
  from Suc.prems obtain x where x: "src ! s = Some x" by force
  then have o: "object_at src s = Some x" using Suc.prems by (simp add: object_at_def)
  let ?w1 = "w\<lparr>tick := tick w + 1, constructed := constructed w + 1\<rparr>"
  have c: "construct_at tr k d x dst w = Returns () (dst[d := Some x], ?w1)"
    using Suc.prems by (simp add: construct_at_def)
  let ?src1 = "src[s := Some (src_after tr k x)]"
  have "Suc s + n \<le> length ?src1" "Suc d + n \<le> length (dst[d := Some x])"
    using Suc.prems by simp_all
  moreover have "\<forall>j. Suc s \<le> j \<and> j < Suc s + n \<longrightarrow> ?src1 ! j \<noteq> None"
    using Suc.prems by (simp add: nth_list_update)
  ultimately obtain s' d' w' where
    "uninitialized_n tr k (Suc s) (Suc d) n ?src1 (dst[d := Some x]) ?w1
       = Returns () (s', d', w')"
    using Suc.IH [OF Suc.prems(1)] by blast
  then show ?case using o c by simp
qed

lemma move_n_total:
  "never_throws tr \<Longrightarrow> Suc d + n \<le> length buf \<Longrightarrow>
     \<forall>j. d \<le> j \<and> j \<le> d + n \<longrightarrow> buf ! j \<noteq> None \<Longrightarrow>
     \<exists>buf' w'. move_n tr (Suc d) n d buf w = Returns () (buf', w')"
proof (induction n arbitrary: d buf w)
  case 0
  then show ?case by simp
next
  case (Suc n)
  from Suc.prems obtain x where x: "buf ! Suc d = Some x" by force
  then have o: "object_at buf (Suc d) = Some x" using Suc.prems by (simp add: object_at_def)
  have "buf ! d \<noteq> None" using Suc.prems by simp
  then have a: "assign_at tr MoveAssign d x buf w
      = Returns () (buf[d := Some x], w\<lparr>tick := tick w + 1\<rparr>)"
    using Suc.prems by (simp add: assign_at_def)
  let ?b2 = "buf[d := Some x, Suc d := Some (moved_from tr x)]"
  have "Suc (Suc d) + n \<le> length ?b2" using Suc.prems by simp
  moreover have "\<forall>j. Suc d \<le> j \<and> j \<le> Suc d + n \<longrightarrow> ?b2 ! j \<noteq> None"
    using Suc.prems by (simp add: nth_list_update)
  ultimately obtain b' w' where
    "move_n tr (Suc (Suc d)) n (Suc d) ?b2 (w\<lparr>tick := tick w + 1\<rparr>) = Returns () (b', w')"
    using Suc.IH [OF Suc.prems(1)] by blast
  then show ?case using o a by simp
qed

lemma move_backward_n_total:
  "never_throws tr \<Longrightarrow> n \<le> lst \<Longrightarrow> lst < length buf \<Longrightarrow>
     \<forall>j. lst - n \<le> j \<and> j \<le> lst \<longrightarrow> buf ! j \<noteq> None \<Longrightarrow>
     \<exists>buf' w'. move_backward_n tr n lst (Suc lst) buf w = Returns () (buf', w')"
proof (induction n arbitrary: lst buf w)
  case 0
  then show ?case by simp
next
  case (Suc n)
  from Suc.prems obtain l1 where l1: "lst = Suc l1" by (cases lst) auto
  have "lst - Suc n \<le> l1 \<and> l1 \<le> lst" using l1 by simp
  then obtain x where x: "buf ! l1 = Some x" using Suc.prems(4) by force
  then have o: "object_at buf l1 = Some x" using Suc.prems l1 by (simp add: object_at_def)
  have "buf ! lst \<noteq> None" using Suc.prems by simp
  then have a: "assign_at tr MoveAssign lst x buf w
      = Returns () (buf[lst := Some x], w\<lparr>tick := tick w + 1\<rparr>)"
    using Suc.prems by (simp add: assign_at_def)
  let ?b2 = "buf[lst := Some x, l1 := Some (moved_from tr x)]"
  have "n \<le> l1" "l1 < length ?b2" using Suc.prems l1 by simp_all
  moreover have "\<forall>j. l1 - n \<le> j \<and> j \<le> l1 \<longrightarrow> ?b2 ! j \<noteq> None"
  proof (intro allI impI)
    fix j assume j: "l1 - n \<le> j \<and> j \<le> l1"
    then have "lst - Suc n \<le> j \<and> j \<le> lst" using l1 by simp
    then have "buf ! j \<noteq> None" using Suc.prems(4) by blast
    then show "?b2 ! j \<noteq> None" using j l1 Suc.prems(3) by (simp add: nth_list_update)
  qed
  ultimately obtain b' w' where
    "move_backward_n tr n l1 (Suc l1) ?b2 (w\<lparr>tick := tick w + 1\<rparr>) = Returns () (b', w')"
    using Suc.IH [OF Suc.prems(1)] by blast
  then show ?case using o a l1 by simp
qed

lemma RawMemory_new_total:
  "never_throws tr \<Longrightarrow>
     \<exists>w'. RawMemory_new tr c w = Returns \<lparr>buffer_m = replicate (unat c) None, capacity_m = c\<rparr> w'"
  by (simp add: RawMemory_new_def Allocate_def never_throws_def)

lemma unat_double_small: "unat (a::size_t) < 2 ^ 63 \<Longrightarrow> unat (a * 2) = 2 * unat a"
proof -
  assume "unat a < 2 ^ 63"
  then have "unat a * 2 < 2 ^ 64" by simp
  then have "(unat a * 2) mod 2 ^ 64 = unat a * 2" by (rule mod_less)
  then show ?thesis by (simp add: unat_word_ariths)
qed

lemma Erase_total:
  assumes "never_throws tr" and "Vector_inv v" and "pos < size_m v"
  shows "\<exists>r v' w'. Erase tr pos v w = Returns r (v', w')"
proof -
  let ?src = "buffer_m (data_m v)"
  let ?n = "unat (size_m v)"
  let ?c = "unat (capacity_m (data_m v))"
  let ?p = "unat pos"
  note i = assms(2) [unfolded Vector_inv_nth]
  have lc: "length ?src = ?c" and nc: "?n \<le> ?c" using i by simp_all
  have live: "\<forall>j<?n. ?src ! j \<noteq> None" using i by auto
  have pn: "?p < ?n" using assms(3) by (simp add: word_less_nat_alt)
  have "Suc ?p + (?n - Suc ?p) \<le> length ?src" using pn lc nc by simp
  moreover have "\<forall>j. ?p \<le> j \<and> j \<le> ?p + (?n - Suc ?p) \<longrightarrow> ?src ! j \<noteq> None"
    using live pn by auto
  ultimately obtain b w1 where
    m: "move_n tr (Suc ?p) (?n - Suc ?p) ?p ?src w = Returns () (b, w1)"
    using move_n_total [OF assms(1)] by blast
  note m' = move_n_Returns [OF m]
  have nz: "size_m v \<noteq> 0" using pn by (auto simp: unat_gt_0 [symmetric] simp del: unat_gt_0)
  then have s1: "unat (size_m v - 1) = ?n - 1" by (simp add: unat_minus_one)
  then have q: "RawMemory_index (data_m v) (size_m v - 1) = Some (?n - 1)"
    using pn nc by (simp add: RawMemory_index_def word_less_nat_alt)
  have j: "?n - 1 < length ?src" using pn lc nc by simp
  have "?src ! (?n - 1) \<noteq> None" "?src ! Suc (?n - 1) \<noteq> None \<or> \<not> ?n - 1 < ?p + (?n - Suc ?p)"
    using live pn by auto
  then have "b ! (?n - 1) \<noteq> None" using m' j pn by (auto split: if_splits)
  then have d: "destroy_at (?n - 1) b w1
      = Some (b[?n - 1 := None], w1\<lparr>destroyed := destroyed w1 + 1\<rparr>)"
    using m' j by (simp add: destroy_at_def)
  show ?thesis using m q d pn by (simp add: Erase_def Let_def)
qed

lemma EmplaceWithRelocation_total:
  assumes "never_throws tr" and "Vector_inv v" and "pos \<le> size_m v"
    and "unat (size_m v) < 2 ^ 63"
  shows "\<exists>r v' w'. EmplaceWithRelocation tr k pos x v w = Returns r (v', w')"
proof -
  let ?c = "if size_m v = 0 then 1 else size_m v * 2"
  let ?src = "buffer_m (data_m v)"
  let ?n = "unat (size_m v)"
  let ?p = "unat pos"
  note i = assms(2) [unfolded Vector_inv_nth]
  have ls: "?n \<le> length ?src" using i by simp
  have live: "\<forall>j<?n. ?src ! j \<noteq> None" using i by auto
  have pn: "?p \<le> ?n" using assms(3) by (simp add: word_le_nat_alt)
  have nc: "?n < unat ?c"
  proof (cases "size_m v = 0")
    case True
    then show ?thesis by simp
  next
    case False
    then have "0 < ?n" by (simp add: unat_gt_0)
    then show ?thesis using False unat_double_small [OF assms(4)] by simp
  qed
  let ?nd = "\<lparr>buffer_m = replicate (unat ?c) None, capacity_m = ?c\<rparr> :: 'a RawMemory"
  obtain w1 where a: "RawMemory_new tr ?c w = Returns ?nd w1"
    using RawMemory_new_total [OF assms(1)] by blast
  have pc: "pos < ?c" using pn nc by (simp add: word_less_nat_alt)
  then have p: "RawMemory_plus ?nd pos = Some ?p" by (simp add: RawMemory_plus_def)
  let ?nb0 = "(replicate (unat ?c) None)[?p := Some x]"
  let ?w2 = "w1\<lparr>tick := tick w1 + 1, constructed := constructed w1 + 1\<rparr>"
  have c: "construct_at tr k ?p x (buffer_m ?nd) w1 = Returns () (?nb0, ?w2)"
    using pn nc assms(1) by (simp add: construct_at_def)
  have h1: "0 + ?p \<le> length ?src" and h2: "0 + ?p \<le> length ?nb0"
    using pn ls nc by simp_all
  have h3: "\<forall>j. 0 \<le> j \<and> j < 0 + ?p \<longrightarrow> ?src ! j \<noteq> None" using live pn by simp
  from uninitialized_n_total [OF assms(1) h1 h2 h3, of "transfer_kind tr" ?w2]
  obtain old nb1 w3 where
    m1: "uninitialized_n tr (transfer_kind tr) 0 0 ?p ?src ?nb0 ?w2 = Returns () (old, nb1, w3)"
    by auto
  note m1' = uninitialized_n_Returns [OF m1]
  have p1u: "unat (pos + 1) = Suc ?p" using pc by (rule unat_inc)
  then have "pos + 1 \<le> ?c" using pn nc by (simp add: word_le_nat_alt)
  then have p1: "RawMemory_plus ?nd (pos + 1) = Some (Suc ?p)"
    using p1u by (simp add: RawMemory_plus_def)
  have n2: "unat (size_m v - pos) = ?n - ?p" using assms(3) by (simp add: unat_sub)
  have oldlive: "\<forall>j<?n. old ! j \<noteq> None"
  proof (intro allI impI)
    fix j assume j: "j < ?n"
    then have "j < length ?src" "?src ! j \<noteq> None" using ls live by auto
    then show "old ! j \<noteq> None" using m1' by auto
  qed
  have g1: "?p + (?n - ?p) \<le> length old" and g2: "Suc ?p + (?n - ?p) \<le> length nb1"
    using pn ls nc m1' by simp_all
  have g3: "\<forall>j. ?p \<le> j \<and> j < ?p + (?n - ?p) \<longrightarrow> old ! j \<noteq> None"
    using oldlive pn by simp
  from uninitialized_n_total [OF assms(1) g1 g2 g3, of "transfer_kind tr" w3]
  obtain old1 nb2 w4 where
    m2: "uninitialized_n tr (transfer_kind tr) ?p (Suc ?p) (?n - ?p) old nb1 w3
           = Returns () (old1, nb2, w4)"
    by auto
  note m2' = uninitialized_n_Returns [OF m2]
  have k2: "\<forall>j. 0 \<le> j \<and> j < 0 + ?n \<longrightarrow> old1 ! j \<noteq> None"
  proof (intro allI impI)
    fix j assume "0 \<le> j \<and> j < 0 + ?n"
    then have j: "j < ?n" by simp
    then have "j < length old" "old ! j \<noteq> None" using ls oldlive m1' by auto
    then show "old1 ! j \<noteq> None" using m2' by auto
  qed
  have k1: "0 + ?n \<le> length old1" using ls m1' m2' by simp
  from destroy_n_total [OF k1 k2, of w4] obtain old2 where
    d: "destroy_n 0 ?n old1 w4 = Some (old2, w4\<lparr>destroyed := destroyed w4 + ?n\<rparr>)"
    by auto
  show ?thesis
    using a p c m1 p1 m2 d n2
    by (simp add: EmplaceWithRelocation_def Let_def MoveIfItsPossible_eq RawMemory_Swap_def)
qed

lemma EmplaceWithoutRelocation_total:
  assumes "never_throws tr" and "Vector_inv v" and "pos \<le> size_m v"
    and "size_m v \<noteq> Capacity v"
  shows "\<exists>r v' w'. EmplaceWithoutRelocation tr k pos x v w = Returns r (v', w')"
proof -
  let ?src = "buffer_m (data_m v)"
  let ?n = "unat (size_m v)"
  let ?c = "unat (capacity_m (data_m v))"
  let ?p = "unat pos"
  note i = assms(2) [unfolded Vector_inv_nth]
  have lc: "length ?src = ?c" and "?n \<le> ?c" using i by simp_all
  moreover have "?n \<noteq> ?c"
    using assms(4) word_unat_eq_iff [of "size_m v" "capacity_m (data_m v)"]
    by (simp only: Capacity_def) blast
  ultimately have nc: "?n < ?c" by simp
  have sc: "size_m v \<le> capacity_m (data_m v)" using nc by (simp add: word_le_nat_alt)
  have live: "\<forall>j<?n. ?src ! j \<noteq> None" using i nc by auto
  have plus: "RawMemory_plus (data_m v) (size_m v) = Some ?n"
    using sc by (simp add: RawMemory_plus_def)
  show ?thesis
  proof (cases "pos = size_m v")
    case True
    have "construct_at tr k ?n x ?src w
        = Returns () (?src[?n := Some x], w\<lparr>tick := tick w + 1, constructed := constructed w + 1\<rparr>)"
      using nc lc assms(1) by (simp add: construct_at_def)
    then show ?thesis using True plus by (simp add: EmplaceWithoutRelocation_def Let_def)
  next
    case False
    then have "?p \<noteq> ?n" using word_unat_eq_iff [of pos "size_m v"] by blast
    moreover have "?p \<le> ?n" using assms(3) by (simp add: word_le_nat_alt)
    ultimately have pn: "?p < ?n" by simp
    then have nz: "size_m v \<noteq> 0" by (auto simp: unat_gt_0 [symmetric] simp del: unat_gt_0)
    then have s1: "unat (size_m v - 1) = ?n - 1" by (simp add: unat_minus_one)
    obtain q where qn: "?n = Suc q" using pn by (cases ?n) auto
    have q: "RawMemory_index (data_m v) (size_m v - 1) = Some q"
      using s1 qn nc by (simp add: RawMemory_index_def word_less_nat_alt)
    obtain y where y: "?src ! q = Some y" using live qn by force
    then have o: "object_at ?src q = Some y" using qn nc lc by (simp add: object_at_def)
    let ?w1 = "w\<lparr>tick := tick w + 1, constructed := constructed w + 1\<rparr>"
    let ?w2 = "?w1\<lparr>tick := tick ?w1 + 1, constructed := constructed ?w1 + 1\<rparr>"
    have c: "construct_at tr MoveCtor ?n y ?src ?w1 = Returns () (?src[?n := Some y], ?w2)"
      using nc lc assms(1) by (simp add: construct_at_def)
    have nl: "\<not> size_m v - 1 < pos" using s1 pn by (simp add: word_less_nat_alt)
    let ?bq = "?src[Suc q := Some y, q := Some (moved_from tr y)]"
    have bqlive: "\<forall>j\<le>Suc q. ?bq ! j \<noteq> None"
    proof (intro allI impI)
      fix j assume j: "j \<le> Suc q"
      show "?bq ! j \<noteq> None"
      proof (cases "j < q")
        case True
        then have "?src ! j \<noteq> None" using live qn by simp
        then show ?thesis using True by simp
      next
        case False
        then have "j = q \<or> j = Suc q" using j by arith
        then show ?thesis using qn nc lc by auto
      qed
    qed
    have e1: "q - ?p \<le> q" and e2: "q < length ?bq" using qn nc lc by simp_all
    have e3: "\<forall>j. q - (q - ?p) \<le> j \<and> j \<le> q \<longrightarrow> ?bq ! j \<noteq> None"
      using bqlive by simp
    from move_backward_n_total [OF assms(1) e1 e2 e3, of ?w2] obtain b1 w3 where
      m: "move_backward_n tr (q - ?p) q (Suc q) ?bq ?w2 = Returns () (b1, w3)"
      by auto
    note m' = move_backward_n_Returns [OF m]
    have pq: "?p \<le> q" using pn qn by simp
    have ix: "RawMemory_index (data_m v) pos = Some ?p"
      using pn nc by (simp add: RawMemory_index_def word_less_nat_alt)
    have pl: "?p < length ?bq" using pn nc lc by simp
    have qq: "q - (q - ?p) = ?p" using pq by simp
    have bp: "?bq ! ?p \<noteq> None" using bqlive pq by simp
    have "b1 ! ?p = (if q - (q - ?p) < ?p \<and> ?p \<le> q then ?bq ! (?p - 1)
            else if ?p = q - (q - ?p) \<and> 0 < q - ?p then map_option (moved_from tr) (?bq ! ?p)
            else ?bq ! ?p)"
      using m' pl by blast
    then have "b1 ! ?p = (if 0 < q - ?p then map_option (moved_from tr) (?bq ! ?p) else ?bq ! ?p)"
      unfolding qq by simp
    then have "b1 ! ?p \<noteq> None" using bp by (cases "0 < q - ?p") auto
    then have a: "assign_at tr MoveAssign ?p x b1 w3
        = Returns () (b1[?p := Some x], w3\<lparr>tick := tick w3 + 1\<rparr>)"
      using m' pl assms(1) by (simp add: assign_at_def)
    show ?thesis
      using False assms(1) plus q o c nl m ix a s1 qn
      by (simp add: EmplaceWithoutRelocation_def Let_def)
  qed
qed

lemma Emplace_total:
  assumes "never_throws tr" and "Vector_inv v" and "pos \<le> size_m v"
    and "unat (size_m v) < 2 ^ 63"
  shows "\<exists>r v' w'. Emplace tr k pos x v w = Returns r (v', w')"
  using EmplaceWithRelocation_total [OF assms] EmplaceWithoutRelocation_total [OF assms(1-3)]
  by (simp add: Emplace_def)

lemma Reserve_total:
  assumes "never_throws tr" and "Vector_inv v"
  shows "\<exists>r v' w'. Reserve tr n v w = Returns r (v', w')"
proof (cases "n \<le> capacity_m (data_m v)")
  case True
  then show ?thesis by (simp add: Reserve_def)
next
  case False
  let ?src = "buffer_m (data_m v)"
  let ?s = "unat (size_m v)"
  note i = assms(2) [unfolded Vector_inv_nth]
  have ls: "?s \<le> length ?src" using i by simp
  have live: "\<forall>j<?s. ?src ! j \<noteq> None" using i by auto
  have "unat (capacity_m (data_m v)) < unat n" using False by (simp add: word_le_nat_alt)
  then have sn: "?s \<le> unat n" using i by simp
  let ?nd = "\<lparr>buffer_m = replicate (unat n) None, capacity_m = n\<rparr> :: 'a RawMemory"
  obtain w1 where a: "RawMemory_new tr n w = Returns ?nd w1"
    using RawMemory_new_total [OF assms(1)] by blast
  have h1: "0 + ?s \<le> length ?src" and h2: "0 + ?s \<le> length (replicate (unat n) None)"
    using ls sn by simp_all
  have h3: "\<forall>j. 0 \<le> j \<and> j < 0 + ?s \<longrightarrow> ?src ! j \<noteq> None" using live by simp
  from uninitialized_n_total [OF assms(1) h1 h2 h3, of "transfer_kind tr" w1]
  obtain old nb w2 where
    m: "uninitialized_n tr (transfer_kind tr) 0 0 ?s ?src (replicate (unat n) None) w1
          = Returns () (old, nb, w2)"
    by auto
  note m' = uninitialized_n_Returns [OF m]
  have k1: "0 + ?s \<le> length old" using ls m' by simp
  have k2: "\<forall>j. 0 \<le> j \<and> j < 0 + ?s \<longrightarrow> old ! j \<noteq> None"
  proof (intro allI impI)
    fix j assume "0 \<le> j \<and> j < 0 + ?s"
    then have "j < ?s" by simp
    then have "j < length ?src" "?src ! j \<noteq> None" using ls live by auto
    then show "old ! j \<noteq> None" using m' by auto
  qed
  from destroy_n_total [OF k1 k2, of w2] obtain old2 where
    d: "destroy_n 0 ?s old w2 = Some (old2, w2\<lparr>destroyed := destroyed w2 + ?s\<rparr>)"
    by auto
  show ?thesis using False a m d
    by (simp add: Reserve_def MoveIfItsPossible_eq RawMemory_Swap_def)
qed

lemma insert_erase_returns:
  assumes "never_throws tr" and "Vector_inv v" and "pos \<le> size_m v"
    and "unat (size_m v) < 2 ^ 63"
  shows "\<exists>r1 v1 w1 r2 v2 w2.
      Emplace tr k pos x v w = Returns r1 (v1, w1)
      \<and> Erase tr pos v1 w1 = Returns r2 (v2, w2)
      \<and> elements v2 = elements v \<and> Vector_inv v2"
proof -
  from Emplace_total [OF assms, of k x w] obtain r1 v1 w1 where
    i: "Emplace tr k pos x v w = Returns r1 (v1, w1)" by blast
  note i' = Emplace_Returns [OF i assms(2)]
  have inv1: "Vector_inv v1" using i' by blast
  have "unat (size_m v1) = Suc (unat (size_m v))" using i' by blast
  then have "unat pos < unat (size_m v1)" using assms(3) by (simp add: word_le_nat_alt)
  then have lt: "pos < size_m v1" by (simp add: word_less_nat_alt)
  from Erase_total [OF assms(1) inv1 lt, of w1] obtain r2 v2 w2 where
    d: "Erase tr pos v1 w1 = Returns r2 (v2, w2)" by blast
  note d' = Erase_Returns [OF d inv1]
  have l: "length (elements v) = unat (size_m v)"
    using assms(2) by (intro elements_length) (simp add: Vector_inv_nth)
  have p: "unat pos \<le> length (elements v)"
    using assms(3) l by (simp add: word_le_nat_alt)
  have e1: "elements v1 = take (unat pos) (elements v) @ x # drop (unat pos) (elements v)"
    using i' by blast
  have "elements v2 = take (unat pos) (elements v1) @ drop (Suc (unat pos)) (elements v1)"
    using d' by blast
  also have "\<dots> = elements v" using e1 p by simp
  finally have "elements v2 = elements v" .
  moreover have "Vector_inv v2" using d' by blast
  ultimately show ?thesis using i d by blast
qed

subsection \<open>The invariant on normal return\<close>

lemma uninitialized_value_construct_n_Returns:
  "uninitialized_value_construct_n tr d n buf w = Returns u (buf', w') \<Longrightarrow>
     length buf' = length buf \<and> (n = 0 \<or> d + n \<le> length buf)
     \<and> (\<forall>j<length buf. buf' ! j =
           (if d \<le> j \<and> j < d + n then Some (value_init tr) else buf ! j))"
proof (induction n arbitrary: d buf w u)
  case 0
  then show ?case by auto
next
  case (Suc n)
  from Suc.prems obtain b1 w1 where
    c: "construct_at tr ValueCtor d (value_init tr) buf w = Returns () (b1, w1)" and
    r: "uninitialized_value_construct_n tr (Suc d) n b1 w1 = Returns () (buf', w')"
    by (auto split: outcome.splits option.splits)
  note c' = construct_at_Returns [OF c]
  note ih = Suc.IH [OF r]
  have "\<forall>j<length buf. buf' ! j =
           (if d \<le> j \<and> j < d + Suc n then Some (value_init tr) else buf ! j)"
  proof (intro allI impI)
    fix j assume j: "j < length buf"
    then have e: "buf' ! j = (if Suc d \<le> j \<and> j < Suc d + n then Some (value_init tr) else b1 ! j)"
      using ih c' by simp
    show "buf' ! j = (if d \<le> j \<and> j < d + Suc n then Some (value_init tr) else buf ! j)"
    proof (cases "j = d")
      case True
      then show ?thesis using e c' by simp
    next
      case False
      then show ?thesis using e c' by auto
    qed
  qed
  then show ?case using ih c' by auto
qed

lemma copy_n_Returns:
  "copy_n tr src s n d dst w = Returns u (dst', w') \<Longrightarrow>
     length dst' = length dst \<and> (\<forall>j<length dst. (dst' ! j \<noteq> None) = (dst ! j \<noteq> None))"
proof (induction n arbitrary: s d dst w u)
  case 0
  then show ?case by auto
next
  case (Suc n)
  from Suc.prems obtain x b1 w1 where
    a: "assign_at tr CopyAssign d x dst w = Returns () (b1, w1)" and
    r: "copy_n tr src (Suc s) n (Suc d) b1 w1 = Returns u (dst', w')"
    by (auto split: outcome.splits option.splits)
  note a' = assign_at_Returns [OF a]
  note ih = Suc.IH [OF r]
  have "\<forall>j<length dst. (dst' ! j \<noteq> None) = (dst ! j \<noteq> None)"
  proof (intro allI impI)
    fix j assume j: "j < length dst"
    then have "(dst' ! j \<noteq> None) = (b1 ! j \<noteq> None)" using ih a' by simp
    moreover have "(b1 ! j \<noteq> None) = (dst ! j \<noteq> None)"
      using a' j by (cases "j = d") auto
    ultimately show "(dst' ! j \<noteq> None) = (dst ! j \<noteq> None)" by simp
  qed
  then show ?case using ih a' by simp
qed

lemma Vector_default_inv: "Vector_inv Vector_default"
  by (simp add: Vector_inv_def Vector_default_def RawMemory_default_def)

lemma Swap_inv:
  "Vector_inv a \<Longrightarrow> Vector_inv b \<Longrightarrow> Swap a b = (a', b') \<Longrightarrow> Vector_inv a' \<and> Vector_inv b'"
  by (auto simp: Swap_def RawMemory_Swap_def Vector_inv_def)

lemma Reserve_inv:
  assumes "Reserve tr n v w = Returns r (v', w')" and "Vector_inv v"
  shows "Vector_inv v' \<and> size_m v' = size_m v \<and> n \<le> Capacity v'"
proof (cases "n \<le> capacity_m (data_m v)")
  case True
  then show ?thesis using assms by (simp add: Reserve_def Capacity_def)
next
  case False
  then have lt: "Capacity v < n" by (simp add: Capacity_def)
  let ?src = "buffer_m (data_m v)"
  let ?s = "unat (size_m v)"
  from Reserve_Returns [OF assms(1) lt] obtain old nb w1 w2 where
    u: "uninitialized_n tr (transfer_kind tr) 0 0 ?s ?src (replicate (unat n) None) w1
          = Returns () (old, nb, w2)" and
    v': "v' = v\<lparr>data_m := \<lparr>buffer_m = nb, capacity_m = n\<rparr>\<rparr>"
    by blast
  note u' = uninitialized_n_Returns [OF u]
  note i = assms(2) [unfolded Vector_inv_nth]
  have "unat (capacity_m (data_m v)) < unat n" using False by (simp add: word_le_nat_alt)
  then have sn: "?s \<le> unat n" using i by simp
  have live: "\<forall>j<?s. ?src ! j \<noteq> None" using i by auto
  have "Vector_inv v'"
    unfolding Vector_inv_nth
  proof (intro conjI allI impI)
    show "length (buffer_m (data_m v')) = unat (capacity_m (data_m v'))" using v' u' by simp
    show "unat (size_m v') \<le> unat (capacity_m (data_m v'))" using v' sn by simp
    fix j assume "j < unat (capacity_m (data_m v'))"
    then have j: "j < unat n" using v' by simp
    then have "nb ! j = (if j < ?s then ?src ! j else None)" using u' by simp
    moreover have "j < ?s \<longrightarrow> ?src ! j \<noteq> None" using live by blast
    ultimately have "(nb ! j \<noteq> None) = (j < ?s)" by auto
    then show "(buffer_m (data_m v') ! j \<noteq> None) = (j < unat (size_m v'))" using v' by simp
  qed
  then show ?thesis using v' by (simp add: Capacity_def)
qed

lemma PopBack_inv:
  assumes "PopBack v w = Returns r (v', w')" and "Vector_inv v"
  shows "Vector_inv v' \<and> size_m v \<noteq> 0 \<and> size_m v' = size_m v - 1"
proof -
  let ?src = "buffer_m (data_m v)"
  let ?s = "unat (size_m v)"
  let ?c = "unat (capacity_m (data_m v))"
  let ?p = "unat (size_m v - 1)"
  from assms(1) obtain b w1 where
    d: "destroy_at ?p ?src w = Some (b, w1)" and
    v': "v' = set_buffer (v\<lparr>size_m := size_m v - 1\<rparr>) b"
    by (auto simp: PopBack_def Let_def RawMemory_plus_def split: option.splits if_splits)
  note d' = destroy_at_Some [OF d]
  note i = assms(2) [unfolded Vector_inv_nth]
  have "?p < ?c" using d' i by simp
  moreover from this have "(?src ! ?p \<noteq> None) = (?p < ?s)" using i by blast
  ultimately have ps: "?p < ?s" using d' by simp
  then have nz: "size_m v \<noteq> 0" by (auto simp: unat_gt_0 [symmetric] simp del: unat_gt_0)
  then have p1: "?p = ?s - 1" by (simp add: unat_minus_one)
  have "Vector_inv v'"
    unfolding Vector_inv_nth
  proof (intro conjI allI impI)
    show "length (buffer_m (data_m v')) = unat (capacity_m (data_m v'))"
      using v' d' i by (simp add: set_buffer_def)
    have "?s \<le> ?c" using i by simp
    then have "?s - 1 \<le> ?c" by simp
    then show "unat (size_m v') \<le> unat (capacity_m (data_m v'))"
      using v' p1 by (simp add: set_buffer_def)
    fix j assume "j < unat (capacity_m (data_m v'))"
    then have j: "j < ?c" using v' by (simp add: set_buffer_def)
    then have l: "(?src ! j \<noteq> None) = (j < ?s)" using i by blast
    have "(b ! j \<noteq> None) = (j < ?s - 1)"
    proof (cases "j = ?s - 1")
      case True
      then show ?thesis using d' p1 by simp
    next
      case False
      then have "b ! j = ?src ! j" using d' p1 by simp
      then show ?thesis using l False ps by auto
    qed
    then show "(buffer_m (data_m v') ! j \<noteq> None) = (j < unat (size_m v'))"
      using v' p1 by (simp add: set_buffer_def)
  qed
  then show ?thesis using nz v' by (simp add: set_buffer_def)
qed

lemma Resize_inv:
  assumes "Resize tr n v w = Returns r (v', w')" and "Vector_inv v"
  shows "Vector_inv v' \<and> size_m v' = n"
proof (cases "size_m v > n")
  case True
  let ?src = "buffer_m (data_m v)"
  let ?s = "unat (size_m v)"
  let ?m = "unat n"
  let ?c = "unat (capacity_m (data_m v))"
  from assms(1) True obtain b w1 where
    d: "destroy_n ?m (unat (size_m v - n)) ?src w = Some (b, w1)" and
    v': "v' = (set_buffer v b)\<lparr>size_m := n\<rparr>"
    by (auto simp: Resize_def split: option.splits)
  note d' = destroy_n_Some [OF d]
  note i = assms(2) [unfolded Vector_inv_nth]
  have ms: "?m < ?s" using True by (simp add: word_less_nat_alt)
  have k: "unat (size_m v - n) = ?s - ?m" using True by (simp add: unat_sub)
  have "Vector_inv v'"
    unfolding Vector_inv_nth
  proof (intro conjI allI impI)
    show "length (buffer_m (data_m v')) = unat (capacity_m (data_m v'))"
      using v' d' i by (simp add: set_buffer_def)
    show "unat (size_m v') \<le> unat (capacity_m (data_m v'))"
      using v' i ms by (simp add: set_buffer_def)
    fix j assume "j < unat (capacity_m (data_m v'))"
    then have j: "j < ?c" using v' by (simp add: set_buffer_def)
    then have l: "(?src ! j \<noteq> None) = (j < ?s)" using i by blast
    have "b ! j = (if ?m \<le> j \<and> j < ?m + (?s - ?m) then None else ?src ! j)"
      using d' j i k by simp
    then have "(b ! j \<noteq> None) = (j < ?m)" using l ms by auto
    then show "(buffer_m (data_m v') ! j \<noteq> None) = (j < unat (size_m v'))"
      using v' by (simp add: set_buffer_def)
  qed
  then show ?thesis using v' by simp
next
  case False
  let ?m = "unat n"
  from assms(1) False obtain r1 v1 w1 where
    rs: "Reserve tr n v w = Returns r1 (v1, w1)"
    by (auto simp: Resize_def split: outcome.splits)
  note rs' = Reserve_inv [OF rs assms(2)]
  let ?b1 = "buffer_m (data_m v1)"
  let ?s = "unat (size_m v1)"
  let ?c = "unat (capacity_m (data_m v1))"
  from assms(1) False rs obtain b w2 where
    u: "uninitialized_value_construct_n tr ?s (unat (n - size_m v1)) ?b1 w1
          = Returns () (b, w2)" and
    v': "v' = (set_buffer v1 b)\<lparr>size_m := n\<rparr>"
    by (auto simp: Resize_def split: outcome.splits)
  note u' = uninitialized_value_construct_n_Returns [OF u]
  have "Vector_inv v1" using rs' by blast
  note i = this [unfolded Vector_inv_nth]
  have sm: "size_m v1 \<le> n" using False rs' by simp
  then have sm': "?s \<le> ?m" by (simp add: word_le_nat_alt)
  have k: "unat (n - size_m v1) = ?m - ?s" using sm by (simp add: unat_sub)
  have mc: "?m \<le> ?c" using rs' by (simp add: Capacity_def word_le_nat_alt)
  have "Vector_inv v'"
    unfolding Vector_inv_nth
  proof (intro conjI allI impI)
    show "length (buffer_m (data_m v')) = unat (capacity_m (data_m v'))"
      using v' u' i by (simp add: set_buffer_def)
    show "unat (size_m v') \<le> unat (capacity_m (data_m v'))"
      using v' mc by (simp add: set_buffer_def)
    fix j assume "j < unat (capacity_m (data_m v'))"
    then have j: "j < ?c" using v' by (simp add: set_buffer_def)
    then have l: "(?b1 ! j \<noteq> None) = (j < ?s)" using i by blast
    have "b ! j = (if ?s \<le> j \<and> j < ?s + (?m - ?s) then Some (value_init tr) else ?b1 ! j)"
      using u' j i k by simp
    then have "(b ! j \<noteq> None) = (j < ?m)" using l sm' by auto
    then show "(buffer_m (data_m v') ! j \<noteq> None) = (j < unat (size_m v'))"
      using v' by (simp add: set_buffer_def)
  qed
  then show ?thesis using v' by simp
qed

lemma Vector_sized_inv:
  assumes "Vector_sized tr n w = Returns v w'"
  shows "Vector_inv v \<and> size_m v = n \<and> Capacity v = n"
proof -
  from assms obtain m w1 where a: "RawMemory_new tr n w = Returns m w1"
    by (auto simp: Vector_sized_def split: outcome.splits)
  note a' = RawMemory_new_Returns [OF a]
  from assms a obtain b w2 where
    u: "uninitialized_value_construct_n tr 0 (unat n) (buffer_m m) w1 = Returns () (b, w2)" and
    v: "v = \<lparr>data_m = m\<lparr>buffer_m := b\<rparr>, size_m = n\<rparr>"
    by (auto simp: Vector_sized_def split: outcome.splits)
  note u' = uninitialized_value_construct_n_Returns [OF u]
  have "Vector_inv v"
    unfolding Vector_inv_nth
  proof (intro conjI allI impI)
    show "length (buffer_m (data_m v)) = unat (capacity_m (data_m v))" using v u' a' by simp
    show "unat (size_m v) \<le> unat (capacity_m (data_m v))" using v a' by simp
    fix j assume "j < unat (capacity_m (data_m v))"
    then have "j < unat n" using v a' by simp
    then have "b ! j = Some (value_init tr)" using u' a' by simp
    then show "(buffer_m (data_m v) ! j \<noteq> None) = (j < unat (size_m v))"
      using v \<open>j < unat n\<close> by simp
  qed
  then show ?thesis using v a' by (simp add: Capacity_def)
qed

lemma Vector_copy_inv:
  assumes "Vector_copy tr other w = Returns c w'" and "Vector_inv other"
  shows "Vector_inv c"
proof -
  let ?n = "unat (size_m other)"
  let ?src = "buffer_m (data_m other)"
  from assms(1) obtain m w1 where a: "RawMemory_new tr (size_m other) w = Returns m w1"
    by (auto simp: Vector_copy_def split: outcome.splits)
  note a' = RawMemory_new_Returns [OF a]
  from assms(1) a obtain src b w2 where
    u: "uninitialized_n tr CopyCtor 0 0 ?n ?src (buffer_m m) w1 = Returns () (src, b, w2)" and
    c: "c = \<lparr>data_m = m\<lparr>buffer_m := b\<rparr>, size_m = size_m other\<rparr>"
    by (auto simp: Vector_copy_def uninitialized_copy_n_def split: outcome.splits)
  note u' = uninitialized_n_Returns [OF u]
  show ?thesis
    unfolding Vector_inv_nth
  proof (intro conjI allI impI)
    show "length (buffer_m (data_m c)) = unat (capacity_m (data_m c))" using c u' a' by simp
    show "unat (size_m c) \<le> unat (capacity_m (data_m c))" using c a' by simp
    fix j assume "j < unat (capacity_m (data_m c))"
    then have j: "j < ?n" using c a' by simp
    then have "b ! j = ?src ! j" "?src ! j \<noteq> None" using u' a' by auto
    then show "(buffer_m (data_m c) ! j \<noteq> None) = (j < unat (size_m c))"
      using c j by simp
  qed
qed

lemma assign_copy_inv:
  assumes "assign_copy tr this rhs st w = Returns r (st', w')" and "\<forall>a. Vector_inv (st a)"
  shows "\<forall>a. Vector_inv (st' a)"
proof (cases "this = rhs")
  case True
  then show ?thesis using assms by (simp add: assign_copy_def)
next
  case ne: False
  let ?t = "st this" and ?r = "st rhs"
  let ?tb = "buffer_m (data_m ?t)"
  let ?s = "unat (size_m ?t)" and ?n = "unat (size_m ?r)"
  let ?c = "unat (capacity_m (data_m ?t))"
  have it: "Vector_inv ?t" and ir: "Vector_inv ?r" using assms(2) by blast+
  note i = it [unfolded Vector_inv_nth]
  show ?thesis
  proof (cases "size_m ?r > capacity_m (data_m ?t)")
    case True
    from assms(1) ne True obtain c w1 where
      vc: "Vector_copy tr ?r w = Returns c w1"
      by (auto simp: assign_copy_def split: outcome.splits)
    let ?c' = "\<lparr>data_m = \<lparr>buffer_m = buffer_m (data_m c),
                 capacity_m = capacity_m (data_m c)\<rparr>, size_m = size_m c\<rparr>"
    have eta: "?c' = c" by simp
    have "st' = st(this := ?c')"
      using assms(1) ne True vc
      by (auto simp: assign_copy_def Swap_def RawMemory_Swap_def split: option.splits)
    then have "st' = st(this := c)" unfolding eta .
    then show ?thesis using Vector_copy_inv [OF vc ir] assms(2) by simp
  next
    case False
    then have nc: "?n \<le> ?c" by (simp add: word_less_nat_alt)
    from assms(1) ne False obtain b w1 where
      cp: "copy_n tr (buffer_m (data_m ?r)) 0 (unat (min (size_m ?r) (size_m ?t))) 0 ?tb w
            = Returns () (b, w1)"
      by (auto simp: assign_copy_def split: outcome.splits)
    note cp' = copy_n_Returns [OF cp]
    have bl: "\<forall>j<?c. (b ! j \<noteq> None) = (j < ?s)" using cp' i by simp
    have lb: "length b = ?c" using cp' i by simp
    have "\<exists>b1. st' = st(this := (set_buffer ?t b1)\<lparr>size_m := size_m ?r\<rparr>)
        \<and> length b1 = ?c \<and> (\<forall>j<?c. (b1 ! j \<noteq> None) = (j < ?n))"
    proof (cases "size_m ?r < size_m ?t")
      case lt: True
      then have ns: "?n < ?s" by (simp add: word_less_nat_alt)
      have k: "unat (size_m ?t - size_m ?r) = ?s - ?n" using lt by (simp add: unat_sub)
      from assms(1) ne False cp lt obtain b1 w2 where
        d: "destroy_n ?n (?s - ?n) b w1 = Some (b1, w2)" and
        s': "st' = st(this := (set_buffer ?t b1)\<lparr>size_m := size_m ?r\<rparr>)"
        by (auto simp: assign_copy_def k split: option.splits)
      note d' = destroy_n_Some [OF d]
      have lv: "\<forall>j<?c. (b1 ! j \<noteq> None) = (j < ?n)"
      proof (intro allI impI)
        fix j assume j: "j < ?c"
        then have "b1 ! j = (if ?n \<le> j \<and> j < ?n + (?s - ?n) then None else b ! j)"
          using d' lb by simp
        moreover have "(b ! j \<noteq> None) = (j < ?s)" using bl j by blast
        ultimately show "(b1 ! j \<noteq> None) = (j < ?n)" using ns by auto
      qed
      have "length b1 = ?c" using d' lb by simp
      then show ?thesis using s' lv by blast
    next
      case ge: False
      then have sn: "?s \<le> ?n" by (simp add: word_less_nat_alt)
      have "size_m ?t \<le> size_m ?r" using ge by simp
      then have k: "unat (size_m ?r - size_m ?t) = ?n - ?s" by (simp add: unat_sub)
      from assms(1) ne False cp ge obtain src b1 w2 where
        u: "uninitialized_n tr CopyCtor ?s ?s (?n - ?s) (buffer_m (data_m ?r)) b w1
              = Returns () (src, b1, w2)" and
        s': "st' = st(this := (set_buffer ?t b1)\<lparr>size_m := size_m ?r\<rparr>)"
        by (auto simp: assign_copy_def uninitialized_copy_n_def k split: outcome.splits)
      note u' = uninitialized_n_Returns [OF u]
      have lv: "\<forall>j<?c. (b1 ! j \<noteq> None) = (j < ?n)"
      proof (intro allI impI)
        fix j assume j: "j < ?c"
        have e: "b1 ! j = (if ?s \<le> j \<and> j < ?s + (?n - ?s)
            then buffer_m (data_m ?r) ! (?s + (j - ?s)) else b ! j)"
          using u' j lb by simp
        have l: "(b ! j \<noteq> None) = (j < ?s)" using bl j by blast
        show "(b1 ! j \<noteq> None) = (j < ?n)"
        proof (cases "?s \<le> j \<and> j < ?n")
          case True
          then have "?s \<le> j \<and> j < ?s + (?n - ?s)" "?s + (j - ?s) = j" by arith+
          then have "b1 ! j = buffer_m (data_m ?r) ! j" "buffer_m (data_m ?r) ! j \<noteq> None"
            using e u' by auto
          then show ?thesis using True by simp
        next
          case False
          then have "b1 ! j = b ! j" using e sn by auto
          then show ?thesis using l False sn by auto
        qed
      qed
      have "length b1 = ?c" using u' lb by simp
      then show ?thesis using s' lv by blast
    qed
    then obtain b1 where
      s': "st' = st(this := (set_buffer ?t b1)\<lparr>size_m := size_m ?r\<rparr>)" and
      l1: "length b1 = ?c" and live: "\<forall>j<?c. (b1 ! j \<noteq> None) = (j < ?n)"
      by blast
    have "Vector_inv ((set_buffer ?t b1)\<lparr>size_m := size_m ?r\<rparr>)"
      unfolding Vector_inv_nth using l1 live nc by (simp add: set_buffer_def)
    then show ?thesis using s' assms(2) by simp
  qed
qed

lemma assign_move_inv:
  assumes "assign_move this rhs st w = Returns r (st', w')" and "\<forall>a. Vector_inv (st a)"
  shows "\<forall>a. Vector_inv (st' a)"
proof (cases "this = rhs")
  case True
  then show ?thesis using assms by (simp add: assign_move_def)
next
  case False
  obtain t r' where sw: "Swap (st this) (st rhs) = (t, r')" by (cases "Swap (st this) (st rhs)")
  have "Vector_inv (st this)" "Vector_inv (st rhs)" using assms(2) by blast+
  from Swap_inv [OF this sw] have "Vector_inv t" "Vector_inv r'" by simp_all
  moreover have "st' = st(this := t, rhs := r')"
    using assms(1) False sw by (simp add: assign_move_def)
  ultimately show ?thesis using assms(2) by simp
qed

lemma Vector_move_inv:
  assumes "Vector_inv other" and "Vector_move other = (new, left)"
  shows "Vector_inv new \<and> Vector_inv left \<and> elements new = elements other
     \<and> size_m left = 0 \<and> Capacity left = 0"
  using assms
  by (auto simp: Vector_move_def Swap_def RawMemory_Swap_def Vector_inv_def Vector_default_def
      RawMemory_default_def elements_def Capacity_def)

text \<open>On a normal return every operation on a single vector keeps the invariant; the
  constructors establish it (\<open>Vector_default_inv\<close>, \<open>Vector_sized_inv\<close>,
  \<open>Vector_copy_inv\<close>, \<open>Vector_move_inv\<close>) and the assignments and \<open>Swap\<close> keep it
  (\<open>assign_copy_inv\<close>, \<open>assign_move_inv\<close>, \<open>Swap_inv\<close>).\<close>

lemma invariant_on_return:
  assumes "Vector_inv v"
  shows "(Reserve tr n v w = Returns r (v', w') \<longrightarrow> Vector_inv v')
     \<and> (Resize tr n v w = Returns r (v', w') \<longrightarrow> Vector_inv v')
     \<and> (PopBack v w = Returns r (v', w') \<longrightarrow> Vector_inv v')
     \<and> (Emplace tr k pos x v w = Returns r (v', w') \<longrightarrow> Vector_inv v')
     \<and> (EmplaceBack tr k x v w = Returns r (v', w') \<longrightarrow> Vector_inv v')
     \<and> (PushBack tr k x v w = Returns r (v', w') \<longrightarrow> Vector_inv v')
     \<and> (Erase tr pos v w = Returns r (v', w') \<longrightarrow> Vector_inv v')"
proof -
  have e: "Vector_inv v'" if "Emplace tr k pos x v w = Returns r (v', w')" for pos r
    using Emplace_Returns [OF that assms] by blast
  have b: "Vector_inv v'" if "EmplaceBack tr k x v w = Returns r (v', w')" for r
  proof -
    from that obtain it where "Emplace tr k (size_m v) x v w = Returns it (v', w')"
      by (auto simp: EmplaceBack_def split: outcome.splits)
    then show ?thesis by (rule e)
  qed
  have p: "Vector_inv v'" if "PushBack tr k x v w = Returns r (v', w')"
  proof -
    from that obtain r' where "EmplaceBack tr k x v w = Returns r' (v', w')"
      by (auto simp: PushBack_def split: outcome.splits)
    then show ?thesis by (rule b)
  qed
  show ?thesis
    using e b p Reserve_inv [of tr n v w r v' w'] Resize_inv [of tr n v w r v' w']
      PopBack_inv [of v w r v' w'] Erase_Returns [of tr pos v w r v' w'] assms
    by blast
qed

section \<open>The claims\<close>






text \<open>
  C9. Assigning a vector to itself, by copy or by move, returns at once: the store is
  unchanged, and so is the bookkeeping, so no element was constructed or destroyed and
  no block allocated or released.
\<close>

theorem self_assignment:
  "assign_copy tr a a st w = Returns (VecRef a) (st, w)
   \<and> assign_move a a st w = Returns (VecRef a) (st, w)"
  by (simp add: assign_copy_def assign_move_def)








text \<open>
  C2. On the copy path (the element type is copy-constructible and its move constructor is
  not \<open>noexcept\<close>), a \<open>Reserve\<close> that leaves by an exception leaves the vector exactly as
  it was. When the exception comes from a copy constructor, the \<open>m\<close> elements already
  copied into the new buffer have been destroyed again and the one block allocated has
  been released.
\<close>

theorem Reserve_strong_guarantee:
  assumes "\<not> nothrow_move_constructible tr" and "copy_constructible tr"
    and "Reserve tr n v w = Throws e (v', w')"
  shows "v' = v
     \<and> (e = elem_exn \<longrightarrow>
          (\<exists>m<unat (size_m v). constructed w' = constructed w + m
                               \<and> destroyed w' = destroyed w + m)
          \<and> allocated w' = allocated w + 1 \<and> released w' = released w + 1)"
proof -
  note D = Reserve_def
  from assms(3) have nle: "\<not> n \<le> capacity_m (data_m v)"
    by (auto simp: D split: if_splits)
  then have n0: "n \<noteq> 0" by auto
  show ?thesis
  proof (cases "RawMemory_new tr n w")
    case Undefined
    then show ?thesis using assms(3) nle by (simp add: D)
  next
    case (Throws e1 w1)
    note t = RawMemory_new_Throws [OF Throws]
    have "v' = v" "e = bad_alloc" using assms(3) nle Throws t by (auto simp: D)
    then show ?thesis by simp
  next
    case (Returns nd w1)
    note a' = RawMemory_new_Returns [OF Returns]
    from assms(3) nle Returns obtain old nb w2 where
      m: "MoveIfItsPossible tr (buffer_m (data_m v)) 0 (unat (size_m v)) (buffer_m nd) 0 w1
            = Throws e (old, nb, w2)" and
      v': "v' = set_buffer v old" and
      w': "w' = RawMemory_dtor (nd\<lparr>buffer_m := nb\<rparr>) w2"
      by (auto simp: D RawMemory_Swap_def split: outcome.splits option.splits)
    note m0 = m [unfolded MoveIfItsPossible_eq transfer_kind_copy [OF assms(1,2)]]
    note m' = uninitialized_n_Throws [OF m0]
    have "old = buffer_m (data_m v)"
      using uninitialized_n_copy_src [OF m0] by blast
    then have 1: "v' = v" using v' by simp
    have "length nb = unat n" using m' a' by simp
    moreover have "0 < unat n" using n0 by (simp add: unat_gt_0)
    ultimately have "nb \<noteq> []" by auto
    then have w2: "w' = w2\<lparr>released := released w2 + 1\<rparr>"
      using w' by (simp add: RawMemory_dtor_def Deallocate_def)
    from m' obtain k where k: "k < unat (size_m v)"
      "w2 = w1\<lparr>tick := tick w1 + k + 1, constructed := constructed w1 + k,
                 destroyed := destroyed w1 + k\<rparr>" by blast
    have "constructed w' = constructed w + k \<and> destroyed w' = destroyed w + k"
      "allocated w' = allocated w + 1" "released w' = released w + 1"
      using w2 k a' n0 by simp_all
    then show ?thesis using 1 k(1) by blast
  qed
qed

theorem Reserve_strong_guarantee_witness:
  "\<not> nothrow_move_constructible ex_copy_throws \<and> copy_constructible ex_copy_throws
   \<and> Reserve ex_copy_throws 10 ex_vector ex_world = Throws elem_exn (ex_vector, ex_world_failed)
   \<and> (\<exists>m<unat (size_m ex_vector). constructed ex_world_failed = constructed ex_world + m
                               \<and> destroyed ex_world_failed = destroyed ex_world + m)
   \<and> allocated ex_world_failed = allocated ex_world + 1
   \<and> released ex_world_failed = released ex_world + 1"
proof -
  have h1: "\<not> nothrow_move_constructible ex_copy_throws" by code_simp
  have h2: "copy_constructible ex_copy_throws" by code_simp
  have h3: "Reserve ex_copy_throws 10 ex_vector ex_world = Throws elem_exn (ex_vector, ex_world_failed)"
    by code_simp
  show ?thesis using h1 h2 h3 Reserve_strong_guarantee [OF h1 h2 h3] by simp
qed




text \<open>
  C6. Copy assignment from a source whose size exceeds the destination's capacity: when it
  leaves by an exception the store (the destination with its capacity, size and elements,
  and every other vector) is exactly as before, and what was constructed and allocated
  meanwhile has been destroyed and released; when it returns, the destination has the
  source's size and elements and every other vector is untouched.
\<close>

theorem assign_copy_grow:
  assumes "Capacity (st this) < size_m (st rhs)"
  shows "(assign_copy tr this rhs st w = Throws e (st', w') \<longrightarrow>
            st' = st
            \<and> constructed w' + destroyed w = constructed w + destroyed w'
            \<and> allocated w' + released w = allocated w + released w')
     \<and> (assign_copy tr this rhs st w = Returns r (st', w') \<longrightarrow>
            elements (st' this) = elements (st rhs) \<and> size_m (st' this) = size_m (st rhs)
            \<and> (\<forall>a. a \<noteq> this \<longrightarrow> st' a = st a))"
proof (cases "this = rhs")
  case True
  then show ?thesis by (simp add: assign_copy_def)
next
  case False
  have g: "capacity_m (data_m (st this)) < size_m (st rhs)"
    using assms by (simp add: Capacity_def)
  show ?thesis
  proof (cases "Vector_copy tr (st rhs) w")
    case Undefined
    then show ?thesis using False g by (simp add: assign_copy_def)
  next
    case (Throws e1 w1)
    note t = Vector_copy_Throws [OF Throws]
    have "assign_copy tr this rhs st w = Throws e1 (st, w1)"
      using False g Throws by (simp add: assign_copy_def)
    then show ?thesis using t by auto
  next
    case (Returns c w1)
    note c' = Vector_copy_Returns [OF Returns]
    let ?t = "\<lparr>data_m = \<lparr>buffer_m = buffer_m (data_m c), capacity_m = capacity_m (data_m c)\<rparr>,
               size_m = size_m c\<rparr>"
    have t: "?t = c" by simp
    have "assign_copy tr this rhs st w \<noteq> Throws e (st', w')"
      using False g Returns
      by (auto simp: assign_copy_def Swap_def RawMemory_Swap_def split: option.splits)
    moreover have "st' = st(this := c)"
      if "assign_copy tr this rhs st w = Returns r (st', w')"
      using that False g Returns t
      by (auto simp: assign_copy_def Swap_def RawMemory_Swap_def split: option.splits)
    ultimately show ?thesis using c' False by auto
  qed
qed

theorem assign_copy_grow_witness:
  "Capacity (ex_store 0) < size_m (ex_store 1)
   \<and> (case assign_copy ex_traits 0 1 ex_store ex_world of
         Returns r (st', w') \<Rightarrow>
           elements (st' 0) = elements (ex_store 1) \<and> elements (st' 0) = [1, 2, 3]
           \<and> size_m (st' 0) = size_m (ex_store 1) \<and> st' 1 = ex_store 1 \<and> st' 2 = ex_store 2
       | Throws e s \<Rightarrow> False
       | Undefined \<Rightarrow> False)
   \<and> (case assign_copy ex_copy_throws 0 1 ex_store ex_world of
         Throws e (st', w') \<Rightarrow>
           st' = ex_store \<and> w' = ex_world_failed
           \<and> constructed w' + destroyed ex_world = constructed ex_world + destroyed w'
           \<and> allocated w' + released ex_world = allocated ex_world + released w'
       | Returns r s \<Rightarrow> False
       | Undefined \<Rightarrow> False)"
proof -
  have h: "Capacity (ex_store 0) < size_m (ex_store 1)" by code_simp
  have 1: "case assign_copy ex_traits 0 1 ex_store ex_world of
         Returns r (st', w') \<Rightarrow> elements (st' 0) = [1, 2, 3]
       | Throws e s \<Rightarrow> False
       | Undefined \<Rightarrow> False" by code_simp
  have 2: "case assign_copy ex_copy_throws 0 1 ex_store ex_world of
         Throws e (st', w') \<Rightarrow> w' = ex_world_failed
       | Returns r s \<Rightarrow> False
       | Undefined \<Rightarrow> False" by code_simp
  from 1 obtain r st1 w1 where
    r: "assign_copy ex_traits 0 1 ex_store ex_world = Returns r (st1, w1)"
    and e: "elements (st1 0) = [1, 2, 3]"
    by (auto split: outcome.splits)
  from 2 obtain e2 st2 where
    t: "assign_copy ex_copy_throws 0 1 ex_store ex_world = Throws e2 (st2, ex_world_failed)"
    by (auto split: outcome.splits)
  note a = assign_copy_grow [OF h, of ex_traits ex_world e2 st1 w1 r]
  note b = assign_copy_grow [OF h, of ex_copy_throws ex_world e2 st2 ex_world_failed r]
  show ?thesis using h r e t a b by simp
qed



text \<open>
  C1 fails on the code. Starting from the default constructor, three \<open>PushBack\<close>s give the
  vector \<open>[1, 2, 3]\<close> of capacity 4, which satisfies the invariant. \<open>Insert\<close> at position 0
  then takes the path without relocation: it move-constructs the last element into slot 3
  and shifts by move assignment; the first move assignment throws, and the exception
  leaves \<open>size_ = 3\<close> with a live object in slot 3, inside \<open>[size, capacity)\<close>. Of the 8
  objects constructed so far 4 were destroyed, so 4 are live for a size of 3.
\<close>

theorem in_place_insert_breaks_invariant:
  "PushBack_copy ex_assign_throws 1 Vector_default ex_world = Returns Void (ex_pushed1, ex_world1)
   \<and> PushBack_copy ex_assign_throws 2 ex_pushed1 ex_world1 = Returns Void (ex_pushed2, ex_world2)
   \<and> PushBack_copy ex_assign_throws 3 ex_pushed2 ex_world2 = Returns Void (ex_pushed3, ex_world3)
   \<and> Vector_inv ex_pushed3
   \<and> Insert_copy ex_assign_throws 0 9 ex_pushed3 ex_world3
        = Throws elem_exn (ex_leaked, ex_world_leaked)
   \<and> \<not> Vector_inv ex_leaked
   \<and> size_m ex_leaked = 3 \<and> Capacity ex_leaked = 4
   \<and> object_at (buffer_m (data_m ex_leaked)) 3 = Some 3
   \<and> constructed ex_world_leaked = destroyed ex_world_leaked + 4"
proof -
  have 1: "PushBack_copy ex_assign_throws 1 Vector_default ex_world
      = Returns Void (ex_pushed1, ex_world1)" by code_simp
  have 2: "PushBack_copy ex_assign_throws 2 ex_pushed1 ex_world1
      = Returns Void (ex_pushed2, ex_world2)" by code_simp
  have 3: "PushBack_copy ex_assign_throws 3 ex_pushed2 ex_world2
      = Returns Void (ex_pushed3, ex_world3)" by code_simp
  have 4: "Vector_inv ex_pushed3" by code_simp
  have 5: "Insert_copy ex_assign_throws 0 9 ex_pushed3 ex_world3
      = Throws elem_exn (ex_leaked, ex_world_leaked)" by code_simp
  have 6: "\<not> Vector_inv ex_leaked" by code_simp
  have 7: "size_m ex_leaked = 3 \<and> Capacity ex_leaked = 4
      \<and> object_at (buffer_m (data_m ex_leaked)) 3 = Some 3
      \<and> constructed ex_world_leaked = destroyed ex_world_leaked + 4" by code_simp
  show ?thesis using 1 2 3 4 5 6 7 by blast
qed

end
